theory Spec2Isabelle
  imports Main "HOL-Library.Word"
begin

unbundle bit_operations_syntax

section \<open>Bytes, slices and the external primitives\<close>

text \<open>
  A Go \<^verbatim>\<open>[]byte\<close> is a list of 8-bit words. Where the code tells a nil slice from an
  empty one (the cached child hashes of an interior node, the tree hash, the redacted
  fields of a proof node) the slice is a \<open>bytes option\<close> with \<open>None\<close> for nil; elsewhere
  (\<^verbatim>\<open>append\<close>, \<^verbatim>\<open>bytes.Equal\<close>, hashing) nil and empty behave alike and the slice is
  a plain list.
\<close>

type_synonym byte = "8 word"
type_synonym bytes = "byte list"

text \<open>
  The hash, the keyed hash, the signature and the byte order of the host are outside the
  repository (BLAKE3; Ed25519; \<^verbatim>\<open>unsafe\<close> reads of the integer's memory). They are the fields of a record
  that every function of the model takes as its first argument.
\<close>

datatype endianness = LittleEndian | BigEndian

record platform =
  blake3 :: "bytes \<Rightarrow> bytes"
  blake3_keyed :: "string \<Rightarrow> bytes \<Rightarrow> bytes \<Rightarrow> bytes"
  ed25519_sign :: "bytes \<Rightarrow> bytes \<Rightarrow> bytes"
  byteorder :: endianness

subsection \<open>conv/utils.go\<close>

definition GetNthBit :: "bytes \<Rightarrow> 32 word \<Rightarrow> bool option" where
  "GetNthBit bs offset =
     (let arrayOffset = unat (offset div 8);
          bitOfByte = unat (offset mod 8)
      in if arrayOffset < length bs
         then Some ((bs ! arrayOffset) AND (push_bit (7 - bitOfByte) 1) \<noteq> 0)
         else None)"

definition memory_of :: "endianness \<Rightarrow> nat \<Rightarrow> 'a::len word \<Rightarrow> bytes" where
  "memory_of e n w =
     (let le = map (\<lambda>i. ucast (drop_bit (8 * i) w)) [0..<n]
      in case e of LittleEndian \<Rightarrow> le | BigEndian \<Rightarrow> rev le)"

definition LongToBytes :: "platform \<Rightarrow> int \<Rightarrow> bytes" where
  "LongToBytes P num = memory_of (byteorder P) 8 (word_of_int num :: 64 word)"

definition ULongToBytes :: "platform \<Rightarrow> 64 word \<Rightarrow> bytes" where
  "ULongToBytes P num = LongToBytes P (sint num)"

definition UInt32ToBytes :: "platform \<Rightarrow> 32 word \<Rightarrow> bytes" where
  "UInt32ToBytes P num = memory_of (byteorder P) 4 num"

text \<open>Reading an integer back from its memory image, for stating what the encoding is.\<close>

definition word_of_memory :: "endianness \<Rightarrow> bytes \<Rightarrow> 'a::len word" where
  "word_of_memory e bs =
     (let le = (case e of LittleEndian \<Rightarrow> bs | BigEndian \<Rightarrow> rev bs)
      in foldr (\<lambda>b acc. ucast b OR push_bit 8 acc) le 0)"

subsection \<open>crypto/hashed/hash.go\<close>

definition HashSizeByte :: nat where
  "HashSizeByte = 32"

definition Digest :: "platform \<Rightarrow> bytes list \<Rightarrow> bytes" where
  "Digest P ms = blake3 P (concat ms)"

record Commit =
  Salt :: "bytes option"
  Hash :: bytes

definition CommitHashCtx :: string where
  "CommitHashCtx = ''clonics commit v1''"

definition CommitHash :: "platform \<Rightarrow> bytes list \<Rightarrow> bytes \<Rightarrow> bytes" where
  "CommitHash P values salt = blake3_keyed P CommitHashCtx salt (concat values)"

text \<open>
  \<^verbatim>\<open>NewCommit\<close> draws its salt from \<^verbatim>\<open>RandSlice()\<close>; the drawn salt is an argument here.
\<close>

definition NewCommit :: "platform \<Rightarrow> bytes \<Rightarrow> bytes list \<Rightarrow> Commit" where
  "NewCommit P salt values = \<lparr> Salt = Some salt, Hash = CommitHash P values salt \<rparr>"

section \<open>The Merkle prefix tree\<close>

subsection \<open>Helpers of package conv that the repository's files do not contain\<close>

text \<open>
  Modelled from the spec: \<^verbatim>\<open>conv.ToBits\<close> is missing from the source files. The spec
  describes it as "Index \<rightarrow> bit sequence" where "bit \<open>d\<close> of the index selects left (0) or
  right (1)"; the bit order is the one of \<^verbatim>\<open>GetNthBit\<close>, most significant bit of each
  byte first.
\<close>

definition ToBits :: "bytes \<Rightarrow> bool list" where
  "ToBits bs = concat (map (\<lambda>b. map (\<lambda>i. bit b (7 - i)) [0..<8]) bs)"

text \<open>
  Modelled from the spec: \<^verbatim>\<open>conv.ToBytes\<close> is missing from the source files. The spec
  asks for "the full 32-byte encoding of the bit-prefix padded with zeros on the right".
\<close>

fun pack_bits :: "bool list \<Rightarrow> bytes" where
  "pack_bits [] = []"
| "pack_bits bits =
     (let group = take 8 bits @ replicate (8 - length bits) False
      in horner_sum of_bool 2 (rev group) # pack_bits (drop 8 bits))"

definition ToBytes :: "bool list \<Rightarrow> bytes" where
  "ToBytes bits = pack_bits (bits @ replicate (256 - length bits) False)"

subsection \<open>Nodes (the unnamed source file of package merkletree)\<close>

text \<open>
  The three node structs behind the interface \<^verbatim>\<open>merkleNode\<close> are the constructors of
  one datatype. An interior node owns its two children, so they are subterms. The
  \<^verbatim>\<open>parent\<close> back-pointer is used by \<^verbatim>\<open>insertNode\<close> alone, to rewire the slot a displaced
  leaf hangs in; in this section the insertion returns the rebuilt subtree to that slot
  instead. The pointer structure itself, parents included, is the subject of the
  store-level model further down.
\<close>

datatype merkleNode =
    interiorNode (level: "32 word") (leftChild: merkleNode) (rightChild: merkleNode)
                 (leftHash: "bytes option") (rightHash: "bytes option")
  | userLeafNode (level: "32 word") (key: string) (val: bytes) (index: bytes)
                 (commitment: Commit)
  | emptyNode (level: "32 word") (index: bytes)

record MerkleTree =
  nonce :: bytes
  root :: merkleNode
  m_hash :: "bytes option"

text \<open>
  What ends a call without a result: the panic \<^verbatim>\<open>ErrInvalidTree\<close>, the runtime panic of an
  index or slice bound, and the end of the model's depth counter (see \<open>insertLoop\<close>).
\<close>

datatype error = ErrInvalidTree | IndexOutOfRange | DepthCounterWraps

definition elems :: "bytes option \<Rightarrow> bytes" where
  "elems bs = (case bs of None \<Rightarrow> [] | Some b \<Rightarrow> b)"

definition copyOfBs :: "bytes option \<Rightarrow> bytes option" where
  "copyOfBs bs = (let c = replicate (length (elems bs)) 0 in Some (elems bs @ drop (length (elems bs)) c))"

definition copyOfBools :: "bool list \<Rightarrow> bool list \<Rightarrow> bool list" where
  "copyOfBools bs extra = bs @ extra"

definition newInteriorNode :: "32 word \<Rightarrow> bool list \<Rightarrow> merkleNode" where
  "newInteriorNode lvl prefixBits =
     (let prefixLeft = copyOfBools prefixBits [False];
          prefixRight = copyOfBools prefixBits [True];
          leftBranch = emptyNode (lvl + 1) (ToBytes prefixLeft);
          rightBranch = emptyNode (lvl + 1) (ToBytes prefixRight)
      in interiorNode lvl leftBranch rightBranch None None)"

definition EmptyBranchIdentifier :: byte where
  "EmptyBranchIdentifier = 0x45"

definition LeafIdentifier :: byte where
  "LeafIdentifier = 0x4C"

text \<open>
  \<^verbatim>\<open>hash\<close> fills the caches of the interior nodes it passes, so it returns the node as
  it is afterwards together with the digest. The leaf hash reads the commitment's hash
  (the field the call site names \<^verbatim>\<open>commitment.Value\<close>).
\<close>

fun hash :: "platform \<Rightarrow> MerkleTree \<Rightarrow> merkleNode \<Rightarrow> bytes \<times> merkleNode" where
  "hash P m (interiorNode l lc rc lh rh) =
     (let (lh', lc') = (case lh of None \<Rightarrow> hash P m lc | Some h \<Rightarrow> (h, lc));
          (rh', rc') = (case rh of None \<Rightarrow> hash P m rc | Some h \<Rightarrow> (h, rc))
      in (Digest P [lh', rh'], interiorNode l lc' rc' (Some lh') (Some rh')))"
| "hash P m (userLeafNode l k v i c) =
     (Digest P [[LeafIdentifier], nonce m, i, UInt32ToBytes P l, Hash c],
      userLeafNode l k v i c)"
| "hash P m (emptyNode l i) =
     (Digest P [[EmptyBranchIdentifier], nonce m, i, UInt32ToBytes P l],
      emptyNode l i)"

fun clone :: "merkleNode \<Rightarrow> merkleNode" where
  "clone (interiorNode l lc rc lh rh) =
     interiorNode l (clone lc) (clone rc) (copyOfBs lh) (copyOfBs rh)"
| "clone (userLeafNode l k v i c) =
     userLeafNode l k (elems (copyOfBs (Some v))) (elems (copyOfBs (Some i))) c"
| "clone (emptyNode l i) = emptyNode l (elems (copyOfBs (Some i)))"

fun isEmpty :: "merkleNode \<Rightarrow> bool" where
  "isEmpty (emptyNode l i) = True"
| "isEmpty n = False"

subsection \<open>The tree (merkletree/str.go, second file)\<close>

text \<open>The nonce comes from \<^verbatim>\<open>RandSlice()\<close>; it is an argument here.\<close>

definition NewMerkleTree :: "bytes \<Rightarrow> MerkleTree" where
  "NewMerkleTree rnd = \<lparr> nonce = rnd, root = newInteriorNode 0 [], m_hash = None \<rparr>"

record ProofNode =
  Level :: "32 word"
  Index :: bytes
  Value :: "bytes option"
  IsEmpty :: bool
  Commitment :: Commit

record AuthenticationPath =
  TreeNonce :: bytes
  PrunedTree :: "bytes list"
  LookupIndex :: bytes
  Leaf :: ProofNode

text \<open>\<^verbatim>\<open>copy(hashArr[:], h)\<close> into a zeroed array of \<^verbatim>\<open>HashSizeByte\<close> bytes.\<close>

definition copy_hashArr :: "bytes option \<Rightarrow> bytes" where
  "copy_hashArr h =
     take HashSizeByte (elems h) @ replicate (HashSizeByte - length (elems h)) 0"

fun searchLoop :: "merkleNode \<Rightarrow> bool list \<Rightarrow> nat \<Rightarrow> bytes list
                     \<Rightarrow> error + (merkleNode \<times> bytes list)" where
  "searchLoop (interiorNode l lc rc lh rh) lookupIndexBits depth pruned =
     (if depth < length lookupIndexBits
      then (if lookupIndexBits ! depth
            then searchLoop rc lookupIndexBits (depth + 1) (pruned @ [copy_hashArr lh])
            else searchLoop lc lookupIndexBits (depth + 1) (pruned @ [copy_hashArr rh]))
      else Inl IndexOutOfRange)"
| "searchLoop nodePointer lookupIndexBits depth pruned = Inr (nodePointer, pruned)"

definition Get :: "MerkleTree \<Rightarrow> bytes \<Rightarrow> error + AuthenticationPath" where
  "Get m lookupIndex =
     (let lookupIndexBits = ToBits lookupIndex in
      case searchLoop (root m) lookupIndexBits 0 [] of
        Inl e \<Rightarrow> Inl e
      | Inr (nodePointer, pruned) \<Rightarrow>
          (case nodePointer of
             userLeafNode l k v i c \<Rightarrow>
               Inr \<lparr> TreeNonce = nonce m, PrunedTree = pruned, LookupIndex = lookupIndex,
                     Leaf = (if i = lookupIndex
                             then \<lparr> Level = l, Index = i, Value = Some v, IsEmpty = False,
                                    Commitment = c \<rparr>
                             else \<lparr> Level = l, Index = i, Value = None, IsEmpty = False,
                                    Commitment = c \<lparr> Salt := None \<rparr> \<rparr>) \<rparr>
           | emptyNode l i \<Rightarrow>
               Inr \<lparr> TreeNonce = nonce m, PrunedTree = pruned, LookupIndex = lookupIndex,
                     Leaf = \<lparr> Level = l, Index = i, Value = None, IsEmpty = True,
                              Commitment = \<lparr> Salt = None, Hash = [] \<rparr> \<rparr> \<rparr>
           | interiorNode l lc rc lh rh \<Rightarrow> Inl ErrInvalidTree))"

text \<open>
  The insertion loop. \<open>toAdd\<close> is the leaf under construction; the result is the subtree
  that stands where \<open>nodePointer\<close> stood. The code counts the depth in a \<^verbatim>\<open>uint32\<close>. Here
  the counter is a natural number and its 32-bit value is \<open>of_nat depth\<close>; a step that
  would use the counter after it has passed \<open>2^32 - 1\<close> (the 32-bit value is no longer the
  depth) ends with \<open>DepthCounterWraps\<close>, so nothing is claimed about what the code does
  with a wrapped counter.
\<close>

fun with_leftChild :: "merkleNode \<Rightarrow> merkleNode \<Rightarrow> merkleNode" where
  "with_leftChild (interiorNode l lc rc lh rh) c = interiorNode l c rc lh rh"
| "with_leftChild n c = n"

fun with_rightChild :: "merkleNode \<Rightarrow> merkleNode \<Rightarrow> merkleNode" where
  "with_rightChild (interiorNode l lc rc lh rh) c = interiorNode l lc c lh rh"
| "with_rightChild n c = n"

definition counter_wrapped :: "nat \<Rightarrow> bool" where
  "counter_wrapped depth \<longleftrightarrow> unat (of_nat depth :: 32 word) \<noteq> depth"

function insertLoop :: "bool list \<Rightarrow> merkleNode \<Rightarrow> merkleNode \<Rightarrow> nat \<Rightarrow> error + merkleNode" where
  "insertLoop indexBits toAdd (userLeafNode l k v i c) depth =
     (if i = index toAdd
      then Inr (userLeafNode l (key toAdd) (val toAdd) (index toAdd) (commitment toAdd))
      else if counter_wrapped depth then Inl DepthCounterWraps
      else if length indexBits < depth then Inl IndexOutOfRange
      else (case GetNthBit i (of_nat depth) of
              None \<Rightarrow> Inl IndexOutOfRange
            | Some direction \<Rightarrow>
                (let newInteriorNode = newInteriorNode (of_nat depth) (take depth indexBits);
                     currentNodeUL = userLeafNode (of_nat depth + 1) k v i c
                 in insertLoop indexBits toAdd
                      (if direction then with_rightChild newInteriorNode currentNodeUL
                       else with_leftChild newInteriorNode currentNodeUL)
                      depth)))"
| "insertLoop indexBits toAdd (interiorNode l lc rc lh rh) depth =
     (if counter_wrapped depth then Inl DepthCounterWraps
      else if length indexBits \<le> depth then Inl IndexOutOfRange
      else if indexBits ! depth
      then (if isEmpty rc
            then Inr (interiorNode l lc
                        (userLeafNode (of_nat depth + 1) (key toAdd) (val toAdd) (index toAdd)
                           (commitment toAdd))
                        lh None)
            else (case insertLoop indexBits toAdd rc (depth + 1) of
                    Inl e \<Rightarrow> Inl e
                  | Inr rc' \<Rightarrow> Inr (interiorNode l lc rc' lh None)))
      else (if isEmpty lc
            then Inr (interiorNode l
                        (userLeafNode (of_nat depth + 1) (key toAdd) (val toAdd) (index toAdd)
                           (commitment toAdd))
                        rc None rh)
            else (case insertLoop indexBits toAdd lc (depth + 1) of
                    Inl e \<Rightarrow> Inl e
                  | Inr lc' \<Rightarrow> Inr (interiorNode l lc' rc None rh))))"
| "insertLoop indexBits toAdd (emptyNode l i) depth = Inl ErrInvalidTree"
  by pat_completeness auto
termination
  by (relation "measures [\<lambda>(indexBits, toAdd, n, depth). length indexBits - depth,
                          \<lambda>(indexBits, toAdd, n, depth).
                             (case n of userLeafNode _ _ _ _ _ \<Rightarrow> 1 | _ \<Rightarrow> 0)]")
     (auto simp add: newInteriorNode_def)

definition insertNode :: "MerkleTree \<Rightarrow> bytes \<Rightarrow> merkleNode \<Rightarrow> error + MerkleTree" where
  "insertNode m idx toAdd =
     (let indexBits = ToBits idx in
      case insertLoop indexBits toAdd (root m) 0 of
        Inl e \<Rightarrow> Inl e
      | Inr r \<Rightarrow> Inr (m \<lparr> root := r \<rparr>))"

definition bytes_of_string :: "string \<Rightarrow> bytes" where
  "bytes_of_string s = map (\<lambda>c. of_nat (of_char c)) s"

text \<open>
  \<^verbatim>\<open>Set\<close> draws a fresh commitment salt on every call (\<^verbatim>\<open>NewCommit\<close>); the drawn salt
  is the argument \<open>salt\<close>.
\<close>

definition Set :: "platform \<Rightarrow> bytes \<Rightarrow> MerkleTree \<Rightarrow> bytes \<Rightarrow> string \<Rightarrow> bytes \<Rightarrow> error + MerkleTree" where
  "Set P salt m idx k v =
     (let commitment = NewCommit P salt [bytes_of_string k, v];
          toAdd = userLeafNode 0 k (elems (copyOfBs (Some v))) idx commitment
      in insertNode m idx toAdd)"

definition recomputeHash :: "platform \<Rightarrow> MerkleTree \<Rightarrow> MerkleTree" where
  "recomputeHash P m = (let (h, r) = hash P m (root m) in m \<lparr> root := r, m_hash := Some h \<rparr>)"

definition Clone :: "MerkleTree \<Rightarrow> MerkleTree" where
  "Clone m = \<lparr> nonce = elems (copyOfBs (Some (nonce m))),
               root = clone (root m),
               m_hash = copyOfBs (m_hash m) \<rparr>"

subsection \<open>The walk of a lookup, for stating what \<^verbatim>\<open>Get\<close> collects\<close>

text \<open>
  \<open>siblings\<close> lists, root first, the sibling of each node a lookup walks through: at depth
  \<open>d\<close> the child on the side opposite to bit \<open>d\<close> of the lookup index.
  \<open>cached_sibling_hashes\<close> lists what the walked interior nodes hold as the cached hashes of
  those siblings. \<open>caches_current\<close> says that every cached child hash in a subtree is present
  and is the hash of the child; \<open>caches_valid\<close> is the invariant of the data model: a
  cached child hash is absent, or it is the hash of the child and everything below is
  current.
\<close>

fun siblings :: "merkleNode \<Rightarrow> bool list \<Rightarrow> nat \<Rightarrow> merkleNode list" where
  "siblings (interiorNode l lc rc lh rh) bits depth =
     (if depth < length bits
      then (if bits ! depth then lc # siblings rc bits (depth + 1)
            else rc # siblings lc bits (depth + 1))
      else [])"
| "siblings n bits depth = []"

fun cached_sibling_hashes :: "merkleNode \<Rightarrow> bool list \<Rightarrow> nat \<Rightarrow> bytes option list" where
  "cached_sibling_hashes (interiorNode l lc rc lh rh) bits depth =
     (if depth < length bits
      then (if bits ! depth then lh # cached_sibling_hashes rc bits (depth + 1)
            else rh # cached_sibling_hashes lc bits (depth + 1))
      else [])"
| "cached_sibling_hashes n bits depth = []"

fun caches_current :: "platform \<Rightarrow> MerkleTree \<Rightarrow> merkleNode \<Rightarrow> bool" where
  "caches_current P m (interiorNode l lc rc lh rh) \<longleftrightarrow>
     lh = Some (fst (hash P m lc)) \<and> rh = Some (fst (hash P m rc)) \<and>
     caches_current P m lc \<and> caches_current P m rc"
| "caches_current P m n \<longleftrightarrow> True"

fun caches_valid :: "platform \<Rightarrow> MerkleTree \<Rightarrow> merkleNode \<Rightarrow> bool" where
  "caches_valid P m (interiorNode l lc rc lh rh) \<longleftrightarrow>
     (case lh of None \<Rightarrow> caches_valid P m lc
      | Some h \<Rightarrow> h = fst (hash P m lc) \<and> caches_current P m lc) \<and>
     (case rh of None \<Rightarrow> caches_valid P m rc
      | Some h \<Rightarrow> h = fst (hash P m rc) \<and> caches_current P m rc)"
| "caches_valid P m n \<longleftrightarrow> True"

section \<open>Signed tree roots (merkletree/str.go)\<close>

text \<open>
  The associated data is an interface with the one method \<^verbatim>\<open>Bytes()\<close>; the record is
  polymorphic in it and the method is passed where it is called. The tree pointer of the
  Go struct plays no part in serialization or chain verification and is left out.
\<close>

record 'ad SignedTreeRoot =
  TreeHash :: bytes
  Epoch :: "64 word"
  PreviousEpoch :: "64 word"
  PreviousSTRHash :: bytes
  Signature :: bytes
  Ad :: 'ad

definition SerializeInternal :: "platform \<Rightarrow> 'ad SignedTreeRoot \<Rightarrow> bytes" where
  "SerializeInternal P str =
     (let strBytes = [] @ ULongToBytes P (Epoch str);
          strBytes = (if Epoch str > 0 then strBytes @ ULongToBytes P (PreviousEpoch str)
                      else strBytes);
          strBytes = strBytes @ TreeHash str;
          strBytes = strBytes @ PreviousSTRHash str
      in strBytes)"

definition Bytes :: "platform \<Rightarrow> ('ad \<Rightarrow> bytes) \<Rightarrow> 'ad SignedTreeRoot \<Rightarrow> bytes" where
  "Bytes P adBytes str = SerializeInternal P str @ adBytes (Ad str)"

definition NewSTR :: "platform \<Rightarrow> ('ad \<Rightarrow> bytes) \<Rightarrow> bytes \<Rightarrow> 'ad \<Rightarrow> MerkleTree \<Rightarrow> 64 word \<Rightarrow> bytes
                       \<Rightarrow> 'ad SignedTreeRoot" where
  "NewSTR P adBytes signKey ad m epoch prevHash =
     (let prevEpoch = (if epoch = 0 then 0 else epoch - 1);
          str = \<lparr> TreeHash = elems (m_hash m), Epoch = epoch, PreviousEpoch = prevEpoch,
                  PreviousSTRHash = prevHash, Signature = [], Ad = ad \<rparr>;
          bytesPreSig = Bytes P adBytes str
      in str \<lparr> Signature := ed25519_sign P signKey bytesPreSig \<rparr>)"

definition VerifyHashChain :: "platform \<Rightarrow> 'ad SignedTreeRoot \<Rightarrow> 'ad SignedTreeRoot \<Rightarrow> bool" where
  "VerifyHashChain P str savedSTR =
     (let hash = Digest P [Signature savedSTR]
      in PreviousEpoch str = Epoch savedSTR \<and>
         Epoch str = Epoch savedSTR + 1 \<and>
         hash = PreviousSTRHash str)"

section \<open>The directory facade (directory/tree.go)\<close>

subsection \<open>Configuration, temporary bindings, directory STRs\<close>

record Config =
  Version :: bytes
  HashID :: bytes
  VrfPublicKey :: bytes
  UpdateInterval :: "64 word"

definition Config_Bytes :: "platform \<Rightarrow> Config \<Rightarrow> bytes" where
  "Config_Bytes P p =
     (let bs = [];
          bs = bs @ Version p;
          bs = bs @ HashID p;
          bs = bs @ VrfPublicKey p;
          bs = bs @ ULongToBytes P (UpdateInterval p)
      in bs)"

record TemporaryBinding =
  tb_Index :: bytes
  tb_Value :: bytes
  tb_Signature :: bytes

definition tb_Bytes :: "TemporaryBinding \<Rightarrow> bytes \<Rightarrow> bytes" where
  "tb_Bytes tb strSig =
     (let tbBytes = [];
          tbBytes = tbBytes @ strSig;
          tbBytes = tbBytes @ tb_Index tb;
          tbBytes = tbBytes @ tb_Value tb
      in tbBytes)"

record DirSTR =
  embeddedSTR :: "Config SignedTreeRoot"
  Policies :: Config

definition NewDirSTR :: "Config SignedTreeRoot \<Rightarrow> DirSTR" where
  "NewDirSTR s = \<lparr> embeddedSTR = s, Policies = Ad s \<rparr>"

subsection \<open>The PAD, the requests and the responses\<close>

text \<open>
  The PAD engine (\<^verbatim>\<open>merkletree.PAD\<close>) is not among the source files. The directory's
  functions are modelled over its methods as parameters: a record of functions on an
  arbitrary PAD state \<open>'pad\<close> with an arbitrary type \<open>'e\<close> of Go errors. The lookups, the
  STR getters, \<^verbatim>\<open>Index\<close> and \<^verbatim>\<open>Sign\<close> read the PAD; \<^verbatim>\<open>Set\<close> returns the PAD it leaves.
\<close>

record ('pad, 'e) PAD =
  pad_Lookup :: "'pad \<Rightarrow> string \<Rightarrow> 'e + AuthenticationPath"
  pad_LookupInEpoch :: "'pad \<Rightarrow> string \<Rightarrow> 64 word \<Rightarrow> 'e + AuthenticationPath"
  pad_Set :: "'pad \<Rightarrow> string \<Rightarrow> bytes \<Rightarrow> 'e + 'pad"
  pad_GetSTR :: "'pad \<Rightarrow> 64 word \<Rightarrow> Config SignedTreeRoot"
  pad_LatestSTR :: "'pad \<Rightarrow> Config SignedTreeRoot"
  pad_Index :: "'pad \<Rightarrow> string \<Rightarrow> bytes"
  pad_Sign :: "'pad \<Rightarrow> bytes list \<Rightarrow> bytes"

text \<open>
  The request structs share the field \<^verbatim>\<open>Username\<close>; they are extensions of one record so
  that the field keeps its name. The constructors of the response messages
  (\<^verbatim>\<open>NewErrorResponse\<close>, \<^verbatim>\<open>NewKeyLookupProof\<close>, ...) belong to the protocol package, which is
  not among the source files either; each is a constructor of the datatype of responses,
  holding its arguments.
\<close>

record KeyLookupRequest =
  Username :: string

record RegistrationRequest = KeyLookupRequest +
  Key :: bytes

record MonitoringRequest = KeyLookupRequest +
  StartEpoch :: "64 word"
  EndEpoch :: "64 word"

datatype ErrorCode =
  ReqSuccess | ReqNameExisted | ReqNameNotFound | ErrMalformedMessage | ErrDirectory

datatype Response =
    NewErrorResponse ErrorCode
  | NewRegistrationProof AuthenticationPath DirSTR "TemporaryBinding option" ErrorCode
  | NewKeyLookupProof AuthenticationPath DirSTR "TemporaryBinding option" ErrorCode
  | NewMonitoringProof "AuthenticationPath list" "DirSTR list"

record 'pad Tree =
  pad :: 'pad
  tbs :: "string \<rightharpoonup> TemporaryBinding"
  policies :: Config

subsection \<open>Operations\<close>

definition LatestSTR :: "('pad, 'e) PAD \<Rightarrow> 'pad Tree \<Rightarrow> DirSTR" where
  "LatestSTR ops d = NewDirSTR (pad_LatestSTR ops (pad d))"

definition NewTB :: "('pad, 'e) PAD \<Rightarrow> 'pad Tree \<Rightarrow> string \<Rightarrow> bytes \<Rightarrow> TemporaryBinding" where
  "NewTB ops d name k =
     (let idx = pad_Index ops (pad d) name
      in \<lparr> tb_Index = idx, tb_Value = k,
           tb_Signature = pad_Sign ops (pad d) [Signature (embeddedSTR (LatestSTR ops d)), idx, k] \<rparr>)"

text \<open>\<^verbatim>\<open>Register\<close> returns the response and the directory as it leaves it.\<close>

definition Register :: "('pad, 'e) PAD \<Rightarrow> 'pad Tree \<Rightarrow> RegistrationRequest
                         \<Rightarrow> Response \<times> 'pad Tree" where
  "Register ops d req =
     (if length (Username req) \<le> 0 \<or> length (Key req) \<le> 0
      then (NewErrorResponse ErrMalformedMessage, d)
      else (case pad_Lookup ops (pad d) (Username req) of
        Inl err \<Rightarrow> (NewErrorResponse ErrDirectory, d)
      | Inr ap \<Rightarrow>
          (if LookupIndex ap = Index (Leaf ap)
           then (NewRegistrationProof ap (LatestSTR ops d) None ReqNameExisted, d)
           else (case tbs d (Username req) of
             Some tb \<Rightarrow> (NewRegistrationProof ap (LatestSTR ops d) (Some tb) ReqNameExisted, d)
           | None \<Rightarrow>
               (let tb = NewTB ops d (Username req) (Key req)
                in (case pad_Set ops (pad d) (Username req) (Key req) of
                     Inl err \<Rightarrow> (NewErrorResponse ErrDirectory, d)
                   | Inr pad' \<Rightarrow>
                       (let d' = d \<lparr> pad := pad', tbs := (tbs d)(Username req \<mapsto> tb) \<rparr>
                        in (NewRegistrationProof ap (LatestSTR ops d') (Some tb) ReqSuccess,
                            d'))))))))"


text \<open>
  The loop of \<^verbatim>\<open>Monitor\<close> counts epochs in a \<^verbatim>\<open>uint64\<close> with \<^verbatim>\<open>ep++\<close> and the test
  \<^verbatim>\<open>ep <= endEp\<close>: for an end epoch of \<open>2^64 - 1\<close> the test never fails. The loop is a
  partial function; not returning is the value \<open>None\<close>.
\<close>

partial_function (option) monitorLoop ::
  "('pad, 'e) PAD \<Rightarrow> 'pad Tree \<Rightarrow> MonitoringRequest \<Rightarrow> 64 word \<Rightarrow> 64 word
     \<Rightarrow> AuthenticationPath list \<Rightarrow> DirSTR list \<Rightarrow> Response option" where
  "monitorLoop ops d req ep endEp aps strs =
     (if ep \<le> endEp
      then (case pad_LookupInEpoch ops (pad d) (Username req) ep of
              Inl err \<Rightarrow> Some (NewErrorResponse ErrDirectory)
            | Inr ap \<Rightarrow>
                monitorLoop ops d req (ep + 1) endEp
                  (aps @ [ap]) (strs @ [NewDirSTR (pad_GetSTR ops (pad d) ep)]))
      else Some (NewMonitoringProof aps strs))"

definition Monitor :: "('pad, 'e) PAD \<Rightarrow> 'pad Tree \<Rightarrow> MonitoringRequest \<Rightarrow> Response option" where
  "Monitor ops d req =
     (if length (Username req) \<le> 0 \<or>
         StartEpoch req > Epoch (embeddedSTR (LatestSTR ops d)) \<or>
         StartEpoch req > EndEpoch req
      then Some (NewErrorResponse ErrMalformedMessage)
      else (let startEp = StartEpoch req;
                endEp = EndEpoch req;
                endEp = (if endEp > Epoch (embeddedSTR (LatestSTR ops d))
                         then Epoch (embeddedSTR (LatestSTR ops d)) else endEp)
            in monitorLoop ops d req startEp endEp [] []))"

section \<open>The tree in memory\<close>

text \<open>
  \<^verbatim>\<open>Clone\<close> is about sharing: whether a write to one tree can be seen through the other.
  The datatype of the previous sections cannot say this, since a value has no identity.
  Here the nodes and the tree headers are objects in a store, a pointer is the position of
  an object in the store, \<^verbatim>\<open>&T{...}\<close> appends an object and returns its position, and an
  assignment to a field replaces the object at a position. The parent pointers are fields
  like any other.

  A byte slice is kept as its contents. \<^verbatim>\<open>Set\<close> and \<^verbatim>\<open>clone\<close> never write into the
  backing array of a slice they hold, they only replace the slice as a whole, so the
  contents are all that can be read back. The same holds for the \<^verbatim>\<open>*Commit\<close> a leaf and
  its clone share: neither function writes through it.

  A function whose recursion or loop follows pointers takes fuel; running out of fuel is
  the outcome \<open>Diverges\<close>, a panic is \<open>Panics\<close>.
\<close>

type_synonym addr = nat

datatype object =
    InteriorObj (parent: "addr option") (lvl: "32 word")
                (left: "addr option") (right: "addr option")
                (lHash: "bytes option") (rHash: "bytes option")
  | UserLeafObj (parent: "addr option") (lvl: "32 word") (ukey: string) (uval: bytes)
                (uindex: bytes) (ucommitment: Commit)
  | EmptyObj (parent: "addr option") (lvl: "32 word") (eindex: bytes)
  | TreeObj (tnonce: bytes) (troot: "addr option") (thash: "bytes option")

type_synonym store = "object list"

datatype 'a outcome = Returns 'a | Panics error | Diverges

text \<open>Reading a pointer that points to no object is \<open>None\<close>.\<close>

definition deref :: "store \<Rightarrow> addr \<Rightarrow> object option" where
  "deref s a = (if a < length s then Some (s ! a) else None)"

definition alloc :: "store \<Rightarrow> object \<Rightarrow> store \<times> addr" where
  "alloc s ob = (s @ [ob], length s)"

text \<open>
  Assignments to one field. A field an object does not have is not assigned (the code's
  type assertions exclude these cases before it writes).
\<close>

fun set_parent :: "object \<Rightarrow> addr option \<Rightarrow> object" where
  "set_parent (InteriorObj p l lc rc lh rh) x = InteriorObj x l lc rc lh rh"
| "set_parent (UserLeafObj p l k v i c) x = UserLeafObj x l k v i c"
| "set_parent (EmptyObj p l i) x = EmptyObj x l i"
| "set_parent ob x = ob"

fun set_lvl :: "object \<Rightarrow> 32 word \<Rightarrow> object" where
  "set_lvl (InteriorObj p l lc rc lh rh) x = InteriorObj p x lc rc lh rh"
| "set_lvl (UserLeafObj p l k v i c) x = UserLeafObj p x k v i c"
| "set_lvl (EmptyObj p l i) x = EmptyObj p x i"
| "set_lvl ob x = ob"

fun set_left :: "object \<Rightarrow> addr option \<Rightarrow> object" where
  "set_left (InteriorObj p l lc rc lh rh) x = InteriorObj p l x rc lh rh"
| "set_left ob x = ob"

fun set_right :: "object \<Rightarrow> addr option \<Rightarrow> object" where
  "set_right (InteriorObj p l lc rc lh rh) x = InteriorObj p l lc x lh rh"
| "set_right ob x = ob"

fun set_lHash :: "object \<Rightarrow> bytes option \<Rightarrow> object" where
  "set_lHash (InteriorObj p l lc rc lh rh) x = InteriorObj p l lc rc x rh"
| "set_lHash ob x = ob"

fun set_rHash :: "object \<Rightarrow> bytes option \<Rightarrow> object" where
  "set_rHash (InteriorObj p l lc rc lh rh) x = InteriorObj p l lc rc lh x"
| "set_rHash ob x = ob"

text \<open>
  \<^verbatim>\<open>newInteriorNode\<close>: two empty leaves, then the interior node over them, then the two
  parent pointers.
\<close>

definition newInteriorNode_st :: "store \<Rightarrow> addr option \<Rightarrow> 32 word \<Rightarrow> bool list \<Rightarrow> store \<times> addr" where
  "newInteriorNode_st s0 par lv prefixBits =
     (let prefixLeft = copyOfBools prefixBits [False];
          prefixRight = copyOfBools prefixBits [True];
          (s1, leftBranch) = alloc s0 (EmptyObj None (lv + 1) (ToBytes prefixLeft));
          (s2, rightBranch) = alloc s1 (EmptyObj None (lv + 1) (ToBytes prefixRight));
          (s3, newNode) = alloc s2 (InteriorObj par lv (Some leftBranch) (Some rightBranch)
                                      None None);
          s4 = s3[leftBranch := set_parent (s3 ! leftBranch) (Some newNode)];
          s5 = s4[rightBranch := set_parent (s4 ! rightBranch) (Some newNode)]
      in (s5, newNode))"

text \<open>
  The three \<^verbatim>\<open>clone\<close> methods. The interior node is allocated first, with its copied hash
  caches and no children; the nil check of the children follows; then the children are
  cloned with the new node as parent, left before right, and stored in the new node.
\<close>

fun clone_st :: "nat \<Rightarrow> store \<Rightarrow> addr \<Rightarrow> addr option \<Rightarrow> (store \<times> addr) outcome" where
  "clone_st 0 s n par = Diverges"
| "clone_st (Suc fuel) s n par =
     (case deref s n of
        None \<Rightarrow> Panics ErrInvalidTree
      | Some (InteriorObj p l lc rc lh rh) \<Rightarrow>
          (let (s1, newNode) = alloc s (InteriorObj par l None None (copyOfBs lh) (copyOfBs rh))
           in case (lc, rc) of
                (Some leftChild', Some rightChild') \<Rightarrow>
                  (case clone_st fuel s1 leftChild' (Some newNode) of
                     Returns (s2, l') \<Rightarrow>
                       (let s3 = s2[newNode := set_left (s2 ! newNode) (Some l')]
                        in case clone_st fuel s3 rightChild' (Some newNode) of
                             Returns (s4, r') \<Rightarrow>
                               Returns (s4[newNode := set_right (s4 ! newNode) (Some r')],
                                        newNode)
                           | Panics e \<Rightarrow> Panics e
                           | Diverges \<Rightarrow> Diverges)
                   | Panics e \<Rightarrow> Panics e
                   | Diverges \<Rightarrow> Diverges)
              | _ \<Rightarrow> Panics ErrInvalidTree)
      | Some (UserLeafObj p l k v i c) \<Rightarrow>
          Returns (alloc s (UserLeafObj par l k (elems (copyOfBs (Some v)))
                              (elems (copyOfBs (Some i))) c))
      | Some (EmptyObj p l i) \<Rightarrow>
          Returns (alloc s (EmptyObj par l (elems (copyOfBs (Some i)))))
      | Some (TreeObj nc r h) \<Rightarrow> Panics ErrInvalidTree)"

text \<open>\<^verbatim>\<open>MerkleTree.Clone\<close>: the nonce, the nodes, the hash, then the new header.\<close>

definition Clone_st :: "nat \<Rightarrow> store \<Rightarrow> addr \<Rightarrow> (store \<times> addr) outcome" where
  "Clone_st fuel s m =
     (case deref s m of
        Some (TreeObj nc (Some r) h) \<Rightarrow>
          (case clone_st fuel s r None of
             Returns (s1, r') \<Rightarrow>
               Returns (alloc s1 (TreeObj (elems (copyOfBs (Some nc))) (Some r') (copyOfBs h)))
           | Panics e \<Rightarrow> Panics e
           | Diverges \<Rightarrow> Diverges)
      | _ \<Rightarrow> Panics ErrInvalidTree)"

text \<open>
  One turn of the loop of \<^verbatim>\<open>insertNode\<close> either goes on with a new node pointer and
  depth, or leaves the loop, or panics. The depth counter is treated as in \<open>insertLoop\<close>
  above.
\<close>

datatype step = Continue store addr nat | Break store | Panic error

text \<open>
  The index is already in the tree: the new leaf takes the parent and the level of the
  leaf found, and is then copied over it (\<^verbatim>\<open>*currentNodeUL = *toAdd\<close>).
\<close>

definition replace_leaf :: "store \<Rightarrow> addr \<Rightarrow> addr \<Rightarrow> store" where
  "replace_leaf s toAdd currentNodeUL =
     (let s1 = s[toAdd := set_parent (s ! toAdd) (parent (s ! currentNodeUL))];
          s2 = s1[toAdd := set_lvl (s1 ! toAdd) (lvl (s1 ! currentNodeUL))]
      in s2[currentNodeUL := s2 ! toAdd])"

text \<open>
  The displaced leaf goes under the new interior node, on the side of its own bit, one
  level down.
\<close>

definition hang_leaf :: "store \<Rightarrow> addr \<Rightarrow> addr \<Rightarrow> bool \<Rightarrow> nat \<Rightarrow> store" where
  "hang_leaf s1 newNode currentNodeUL direction depth =
     (let s2 = (if direction
                then s1[newNode := set_right (s1 ! newNode) (Some currentNodeUL)]
                else s1[newNode := set_left (s1 ! newNode) (Some currentNodeUL)]);
          s3 = s2[currentNodeUL := set_lvl (s2 ! currentNodeUL) (of_nat depth + 1)]
      in s3[currentNodeUL := set_parent (s3 ! currentNodeUL) (Some newNode)])"

text \<open>
  The parent's slot that held the displaced leaf now holds the new interior node: the left
  slot if it pointed to the leaf, the right slot otherwise.
\<close>

definition rewire :: "store \<Rightarrow> addr \<Rightarrow> addr \<Rightarrow> addr \<Rightarrow> store" where
  "rewire s par nodePointer newNode =
     (if left (s ! par) = Some nodePointer
      then s[par := set_left (s ! par) (Some newNode)]
      else s[par := set_right (s ! par) (Some newNode)])"

text \<open>
  A leaf with another index is found: a new interior node takes its place under its
  parent and the leaf is pushed down. The loop goes on at the new node, at the same depth.
\<close>

definition push_down :: "store \<Rightarrow> bool list \<Rightarrow> addr \<Rightarrow> addr \<Rightarrow> nat \<Rightarrow> step" where
  "push_down s indexBits currentNodeUL par depth =
     (if counter_wrapped depth then Panic DepthCounterWraps
      else if length indexBits < depth then Panic IndexOutOfRange
      else
        (let (s1, newNode) =
               newInteriorNode_st s (Some par) (of_nat depth) (take depth indexBits)
         in case GetNthBit (uindex (s1 ! currentNodeUL)) (of_nat depth) of
              None \<Rightarrow> Panic IndexOutOfRange
            | Some direction \<Rightarrow>
                (let s4 = hang_leaf s1 newNode currentNodeUL direction depth
                 in case deref s4 par of
                      Some (InteriorObj pp pl plc prc plh prh) \<Rightarrow>
                        Continue (rewire s4 par currentNodeUL newNode)
                          newNode depth
                    | _ \<Rightarrow> Panic ErrInvalidTree)))"

text \<open>The new leaf goes into the empty slot of the interior node, one level down.\<close>

definition attach :: "store \<Rightarrow> addr \<Rightarrow> addr \<Rightarrow> bool \<Rightarrow> nat \<Rightarrow> store" where
  "attach s1 currentNodeI toAdd direction depth =
     (let s2 = (if direction
                then s1[currentNodeI := set_right (s1 ! currentNodeI) (Some toAdd)]
                else s1[currentNodeI := set_left (s1 ! currentNodeI) (Some toAdd)]);
          s3 = s2[toAdd := set_lvl (s2 ! toAdd) (of_nat depth + 1)]
      in s3[toAdd := set_parent (s3 ! toAdd) (Some currentNodeI)])"

text \<open>
  An interior node is found: the cache of the side the index goes to is reset, and the
  new leaf either is attached there, when the child is empty, or the loop goes on at the
  child, one level down.
\<close>

definition descend :: "store \<Rightarrow> bool list \<Rightarrow> addr \<Rightarrow> addr \<Rightarrow> nat \<Rightarrow> step" where
  "descend s indexBits toAdd currentNodeI depth =
     (if counter_wrapped depth then Panic DepthCounterWraps
      else if length indexBits \<le> depth then Panic IndexOutOfRange
      else if indexBits ! depth
      then (let s1 = s[currentNodeI := set_rHash (s ! currentNodeI) None]
            in case right (s1 ! currentNodeI) of
                 None \<Rightarrow> Panic ErrInvalidTree
               | Some rightChild' \<Rightarrow>
                   (case deref s1 rightChild' of
                      None \<Rightarrow> Panic ErrInvalidTree
                    | Some (EmptyObj p l i) \<Rightarrow> Break (attach s1 currentNodeI toAdd True depth)
                    | Some ob \<Rightarrow> Continue s1 rightChild' (depth + 1)))
      else (let s1 = s[currentNodeI := set_lHash (s ! currentNodeI) None]
            in case left (s1 ! currentNodeI) of
                 None \<Rightarrow> Panic ErrInvalidTree
               | Some leftChild' \<Rightarrow>
                   (case deref s1 leftChild' of
                      None \<Rightarrow> Panic ErrInvalidTree
                    | Some (EmptyObj p l i) \<Rightarrow> Break (attach s1 currentNodeI toAdd False depth)
                    | Some ob \<Rightarrow> Continue s1 leftChild' (depth + 1))))"

text \<open>
  The turn of the loop, by the kind of the node found. A leaf without a parent and a
  node of another kind are \<^verbatim>\<open>ErrInvalidTree\<close>.
\<close>

definition insertStep :: "store \<Rightarrow> bool list \<Rightarrow> addr \<Rightarrow> addr \<Rightarrow> nat \<Rightarrow> step" where
  "insertStep s indexBits toAdd nodePointer depth =
     (case (deref s nodePointer, deref s toAdd) of
        (Some (UserLeafObj p l k v i c), Some (UserLeafObj ap al ak av ai ac)) \<Rightarrow>
          (case p of
             None \<Rightarrow> Panic ErrInvalidTree
           | Some par \<Rightarrow>
               if i = ai then Break (replace_leaf s toAdd nodePointer)
               else push_down s indexBits nodePointer par depth)
      | (Some (InteriorObj p l lc rc lh rh), Some (UserLeafObj ap al ak av ai ac)) \<Rightarrow>
          descend s indexBits toAdd nodePointer depth
      | _ \<Rightarrow> Panic ErrInvalidTree)"

text \<open>The loop of \<^verbatim>\<open>insertNode\<close>.\<close>

fun insertLoop_st :: "nat \<Rightarrow> store \<Rightarrow> bool list \<Rightarrow> addr \<Rightarrow> addr \<Rightarrow> nat \<Rightarrow> store outcome" where
  "insertLoop_st 0 s indexBits toAdd nodePointer depth = Diverges"
| "insertLoop_st (Suc fuel) s indexBits toAdd nodePointer depth =
     (case insertStep s indexBits toAdd nodePointer depth of
        Continue s' nodePointer' depth' \<Rightarrow> insertLoop_st fuel s' indexBits toAdd nodePointer' depth'
      | Break s' \<Rightarrow> Returns s'
      | Panic e \<Rightarrow> Panics e)"

text \<open>
  \<^verbatim>\<open>Set\<close>: the commitment (its salt is an argument, as in \<open>Set\<close> above), the new leaf
  with a copy of the value, then the insertion from the root at depth 0. A call is the
  salt, the index, the key and the value.
\<close>

definition Set_st :: "platform \<Rightarrow> nat \<Rightarrow> store \<Rightarrow> addr \<Rightarrow> bytes \<times> bytes \<times> string \<times> bytes \<Rightarrow> store outcome" where
  "Set_st P fuel s m call =
     (case call of (salt, idx, k, v) \<Rightarrow>
        (let commitment = NewCommit P salt [bytes_of_string k, v];
             (s1, toAdd) = alloc s (UserLeafObj None 0 k (elems (copyOfBs (Some v))) idx commitment)
         in case deref s1 m of
              Some (TreeObj nc (Some r) h) \<Rightarrow> insertLoop_st fuel s1 (ToBits idx) toAdd r 0
            | _ \<Rightarrow> Panics ErrInvalidTree))"

text \<open>A sequence of calls of \<^verbatim>\<open>Set\<close> on one tree.\<close>

fun Sets_st :: "platform \<Rightarrow> nat \<Rightarrow> store \<Rightarrow> addr \<Rightarrow> (bytes \<times> bytes \<times> string \<times> bytes) list \<Rightarrow> store outcome" where
  "Sets_st P fuel s m [] = Returns s"
| "Sets_st P fuel s m (call # calls) =
     (case Set_st P fuel s m call of
        Returns s' \<Rightarrow> Sets_st P fuel s' m calls
      | Panics e \<Rightarrow> Panics e
      | Diverges \<Rightarrow> Diverges)"

text \<open>The same sequence of calls on the tree of the previous sections.\<close>

fun Sets :: "platform \<Rightarrow> MerkleTree \<Rightarrow> (bytes \<times> bytes \<times> string \<times> bytes) list
               \<Rightarrow> error + MerkleTree" where
  "Sets P m [] = Inr m"
| "Sets P m ((salt, idx, k, v) # calls) =
     (case Set P salt m idx k v of Inl e \<Rightarrow> Inl e | Inr m' \<Rightarrow> Sets P m' calls)"

text \<open>\<^verbatim>\<open>NewMerkleTree\<close>: the root, then the header with the nonce drawn.\<close>

definition NewMerkleTree_st :: "bytes \<Rightarrow> store \<Rightarrow> store \<times> addr" where
  "NewMerkleTree_st rnd s =
     (let (s1, r) = newInteriorNode_st s None 0 []
      in alloc s1 (TreeObj rnd (Some r) None))"

text \<open>
  What can be read from a node pointer, and from a tree pointer: the tree of the previous
  sections, with every field of every node that is reachable through the children.
\<close>

fun node_at :: "nat \<Rightarrow> store \<Rightarrow> addr \<Rightarrow> merkleNode option" where
  "node_at 0 s n = None"
| "node_at (Suc fuel) s n =
     (case deref s n of
        Some (InteriorObj p l (Some lc) (Some rc) lh rh) \<Rightarrow>
          (case (node_at fuel s lc, node_at fuel s rc) of
             (Some lt, Some rt) \<Rightarrow> Some (interiorNode l lt rt lh rh)
           | _ \<Rightarrow> None)
      | Some (UserLeafObj p l k v i c) \<Rightarrow> Some (userLeafNode l k v i c)
      | Some (EmptyObj p l i) \<Rightarrow> Some (emptyNode l i)
      | _ \<Rightarrow> None)"

definition tree_at :: "nat \<Rightarrow> store \<Rightarrow> addr \<Rightarrow> MerkleTree option" where
  "tree_at fuel s m =
     (case deref s m of
        Some (TreeObj nc (Some r) h) \<Rightarrow>
          (case node_at fuel s r of
             Some t \<Rightarrow> Some \<lparr> nonce = nc, root = t, m_hash = h \<rparr>
           | None \<Rightarrow> None)
      | _ \<Rightarrow> None)"

subsection \<open>Regions of the store\<close>

text \<open>
  The pointers an object holds. A store is well formed when every pointer in it points
  to an object of the store; this holds in every state of a Go program. A region is a set
  of positions; it is closed when the objects in it point into it. A step frames a region
  when it changes nothing outside of it. A region is fresh when it owns every position not
  yet allocated.
\<close>

fun pointers :: "object \<Rightarrow> addr list" where
  "pointers (InteriorObj p l lc rc lh rh) =
     (case p of None \<Rightarrow> [] | Some a \<Rightarrow> [a]) @ (case lc of None \<Rightarrow> [] | Some a \<Rightarrow> [a]) @
     (case rc of None \<Rightarrow> [] | Some a \<Rightarrow> [a])"
| "pointers (UserLeafObj p l k v i c) = (case p of None \<Rightarrow> [] | Some a \<Rightarrow> [a])"
| "pointers (EmptyObj p l i) = (case p of None \<Rightarrow> [] | Some a \<Rightarrow> [a])"
| "pointers (TreeObj nc r h) = (case r of None \<Rightarrow> [] | Some a \<Rightarrow> [a])"

definition well_formed :: "store \<Rightarrow> bool" where
  "well_formed s = list_all (\<lambda>ob. list_all (\<lambda>a. a < length s) (pointers ob)) s"

definition closed :: "store \<Rightarrow> addr set \<Rightarrow> bool" where
  "closed s R \<longleftrightarrow> (\<forall>a<length s. a \<in> R \<longrightarrow> set (pointers (s ! a)) \<subseteq> R)"

definition frame :: "addr set \<Rightarrow> store \<Rightarrow> store \<Rightarrow> bool" where
  "frame R s s' \<longleftrightarrow> length s \<le> length s' \<and> (\<forall>a<length s. a \<notin> R \<longrightarrow> s' ! a = s ! a)"

definition fresh_in :: "addr set \<Rightarrow> store \<Rightarrow> bool" where
  "fresh_in R s \<longleftrightarrow> (\<forall>a\<ge>length s. a \<in> R)"

text \<open>A step stays within a region: the region stays closed and frames the step.\<close>

definition within :: "addr set \<Rightarrow> store \<Rightarrow> store \<Rightarrow> bool" where
  "within R s0 s \<longleftrightarrow> closed s R \<and> frame R s0 s"

text \<open>
  What \<^verbatim>\<open>clone\<close> leaves behind: the old objects as they were, and new objects that point
  to new objects or to the parent given.
\<close>

definition copied :: "store \<Rightarrow> addr option \<Rightarrow> store \<Rightarrow> bool" where
  "copied s par s' \<longleftrightarrow>
     length s < length s' \<and> (\<forall>a<length s. s' ! a = s ! a) \<and>
     (\<forall>a. length s \<le> a \<and> a < length s' \<longrightarrow>
        set (pointers (s' ! a)) \<subseteq> {length s..<length s'} \<union> set_option par)"

text \<open>The children an object points to.\<close>

fun kids :: "object \<Rightarrow> addr list" where
  "kids (InteriorObj p l lc rc lh rh) =
     (case lc of None \<Rightarrow> [] | Some a \<Rightarrow> [a]) @ (case rc of None \<Rightarrow> [] | Some a \<Rightarrow> [a])"
| "kids ob = []"

section \<open>A concrete platform for evaluating the model\<close>

text \<open>
  The theorems below hold for every platform. Where a statement is evaluated at a
  concrete input, the primitives are these stand-ins: a 32-byte checksum for the hash,
  the same checksum over key and message for the keyed hash and for the signature.
\<close>

definition toy_digest :: "bytes \<Rightarrow> bytes" where
  "toy_digest bs = replicate 31 0 @ [sum_list bs + 1]"

definition toy :: platform where
  "toy = \<lparr> blake3 = toy_digest,
           blake3_keyed = (\<lambda>ctx k msg. toy_digest (k @ msg)),
           ed25519_sign = (\<lambda>k msg. toy_digest (k @ msg)),
           byteorder = LittleEndian \<rparr>"

text \<open>
  A tree with nonce \<open>[7]\<close> in which the name \<open>a\<close> is set at a 32-byte index, once with the
  commitment salt \<open>[1]\<close> and then again with the salt \<open>[2]\<close>, and the path a lookup of
  that index returns (\<open>h\<close> is its one pruned-tree entry).
\<close>

definition toy_index :: bytes where
  "toy_index = 0x80 # replicate 31 0"

definition toy_set_once :: MerkleTree where
  "toy_set_once =
     \<lparr> nonce = [7],
       root = interiorNode 0 (emptyNode 1 (ToBytes [False]))
                (userLeafNode 1 ''a'' [5] toy_index
                   \<lparr> Salt = Some [1], Hash = replicate 31 0 @ [104] \<rparr>)
                None None,
       m_hash = None \<rparr>"

definition toy_set_twice :: MerkleTree where
  "toy_set_twice =
     \<lparr> nonce = [7],
       root = interiorNode 0 (emptyNode 1 (ToBytes [False]))
                (userLeafNode 1 ''a'' [5] toy_index
                   \<lparr> Salt = Some [2], Hash = replicate 31 0 @ [105] \<rparr>)
                None None,
       m_hash = None \<rparr>"

definition toy_path :: "bytes \<Rightarrow> AuthenticationPath" where
  "toy_path h =
     \<lparr> TreeNonce = [7], PrunedTree = [h], LookupIndex = toy_index,
       Leaf = \<lparr> Level = 1, Index = toy_index, Value = Some [5], IsEmpty = False,
                Commitment = \<lparr> Salt = Some [1], Hash = replicate 31 0 @ [104] \<rparr> \<rparr> \<rparr>"

text \<open>
  A small directory over these primitives: the PAD is a single tree in which the name
  \<open>c\<close> is bound, the index of a name is its bytes, every epoch up to \<open>latest\<close> answers
  lookups, and the name \<open>a\<close> has a temporary binding.
\<close>

definition toy_config :: Config where
  "toy_config = \<lparr> Version = [1], HashID = bytes_of_string ''BLAKE3'', VrfPublicKey = [9],
                  UpdateInterval = 1 \<rparr>"

definition toy_tree :: MerkleTree where
  "toy_tree = (case Set toy [1] (NewMerkleTree [7]) (bytes_of_string ''c'') ''c'' [6] of
                 Inr m \<Rightarrow> recomputeHash toy m | Inl e \<Rightarrow> NewMerkleTree [7])"

definition toy_str :: "64 word \<Rightarrow> Config SignedTreeRoot" where
  "toy_str e = NewSTR toy (Config_Bytes toy) [3] toy_config toy_tree e []"

definition toy_pad :: "64 word \<Rightarrow> (MerkleTree, error) PAD" where
  "toy_pad latest =
     \<lparr> pad_Lookup = (\<lambda>m name. Get m (bytes_of_string name)),
       pad_LookupInEpoch = (\<lambda>m name ep. if ep \<le> latest then Get m (bytes_of_string name)
                                         else Inl ErrInvalidTree),
       pad_Set = (\<lambda>m name v. Set toy [1] m (bytes_of_string name) name v),
       pad_GetSTR = (\<lambda>m ep. toy_str ep),
       pad_LatestSTR = (\<lambda>m. toy_str latest),
       pad_Index = (\<lambda>m name. bytes_of_string name),
       pad_Sign = (\<lambda>m ms. ed25519_sign toy [3] (concat ms)) \<rparr>"


definition toy_tb :: TemporaryBinding where
  "toy_tb = \<lparr> tb_Index = bytes_of_string ''a'', tb_Value = [5], tb_Signature = [0] \<rparr>"

definition toy_dir :: "MerkleTree Tree" where
  "toy_dir = \<lparr> pad = toy_tree, tbs = [''a'' \<mapsto> toy_tb], policies = toy_config \<rparr>"

definition toy_ap :: "string \<Rightarrow> AuthenticationPath" where
  "toy_ap name = (case Get toy_tree (bytes_of_string name) of Inr ap \<Rightarrow> ap)"

text \<open>
  The store after \<^verbatim>\<open>NewMerkleTree\<close> and one \<^verbatim>\<open>Set\<close>, the store after the clone of that
  tree, two further calls (one replaces the binding, one pushes the leaf down), and the
  store after these calls on the tree at a given pointer.
\<close>

definition toy_store :: "store \<times> addr" where
  "toy_store =
     (case NewMerkleTree_st [7] [] of
        (s, m) \<Rightarrow> (case Set_st toy 9 s m ([1], toy_index, ''a'', [5]) of
                     Returns s' \<Rightarrow> (s', m) | _ \<Rightarrow> (s, m)))"

definition toy_cloned :: "store \<times> addr" where
  "toy_cloned = (case Clone_st 9 (fst toy_store) (snd toy_store) of
                   Returns r \<Rightarrow> r | _ \<Rightarrow> toy_store)"

definition toy_calls :: "(bytes \<times> bytes \<times> string \<times> bytes) list" where
  "toy_calls = [([2], toy_index, ''a'', [8]), ([3], 0xC0 # replicate 31 0, ''d'', [9])]"

definition toy_sets_on :: "addr \<Rightarrow> store" where
  "toy_sets_on m = (case Sets_st toy 9 (fst toy_cloned) m toy_calls of
                      Returns s \<Rightarrow> s | _ \<Rightarrow> [])"

section \<open>Properties of the integer encoding\<close>

lemma length_memory_of: "length (memory_of e n w) = n"
  by (cases e) (simp_all add: memory_of_def)

lemma length_ULongToBytes: "length (ULongToBytes P num) = 8"
  by (simp add: ULongToBytes_def LongToBytes_def length_memory_of)

lemma length_UInt32ToBytes: "length (UInt32ToBytes P num) = 4"
  by (simp add: UInt32ToBytes_def length_memory_of)

lemma ucast_byte_back: "(ucast (ucast (v::'a::len word) :: byte) :: 'a word) = take_bit 8 v"
  by (rule bit_eqI) (auto simp add: bit_ucast_iff bit_take_bit_iff)

lemma byte_step:
  "take_bit 8 (v::'a::len word) OR push_bit 8 (take_bit m (drop_bit 8 v)) = take_bit (8 + m) v"
  by (rule bit_eqI)
     (auto simp add: bit_or_iff bit_take_bit_iff bit_push_bit_iff bit_drop_bit_eq)

lemma foldr_bytes:
  "(foldr (\<lambda>b acc. ucast b OR push_bit 8 acc)
      (map (\<lambda>i. (ucast (drop_bit (8 * i) (w::'a::len word)) :: byte)) [k..<k + n]) 0 :: 'a word)
   = take_bit (8 * n) (drop_bit (8 * k) w)"
proof (induction n arbitrary: k)
  case 0
  then show ?case by simp
next
  case (Suc n)
  have u: "[k..<k + Suc n] = k # [Suc k..<Suc k + n]"
    by (simp add: upt_rec)
  have d: "drop_bit (8 * Suc k) w = drop_bit 8 (drop_bit (8 * k) w)"
    by (simp add: drop_bit_drop_bit)
  show ?case
    unfolding u using Suc.IH [of "Suc k"]
    by (simp only: list.map foldr.simps o_apply ucast_byte_back d byte_step)
       (simp add: ac_simps)
qed

lemma word_of_memory_of:
  "LENGTH('a) \<le> 8 * n \<Longrightarrow> word_of_memory e (memory_of e n (w::'a::len word)) = w"
  using foldr_bytes [of w 0 n]
  by (cases e) (simp_all add: word_of_memory_def memory_of_def take_bit_word_beyond_length_eq)

lemma ULongToBytes_decodes: "word_of_memory (byteorder P) (ULongToBytes P num) = num"
  by (simp add: ULongToBytes_def LongToBytes_def word_of_memory_of)

lemma UInt32ToBytes_decodes: "word_of_memory (byteorder P) (UInt32ToBytes P num) = num"
  by (simp add: UInt32ToBytes_def word_of_memory_of)

section \<open>The hash chain of signed tree roots\<close>

text \<open>
  Claim C1. For all signed tree roots \<open>a\<close> and \<open>b\<close>, \<^verbatim>\<open>b.VerifyHashChain(a)\<close> is true if
  and only if \<open>b.PreviousSTRHash\<close> is the digest of \<open>a.Signature\<close>, \<open>b.PreviousEpoch\<close> is
  \<open>a.Epoch\<close> and \<open>b.Epoch\<close> is \<open>a.Epoch + 1\<close>. The epochs are \<^verbatim>\<open>uint64\<close> and the sum is
  the code's own, in 64-bit arithmetic.
\<close>

theorem VerifyHashChain_iff:
  "VerifyHashChain P b a \<longleftrightarrow>
     PreviousSTRHash b = Digest P [Signature a] \<and>
     PreviousEpoch b = Epoch a \<and>
     Epoch b = Epoch a + 1"
  by (auto simp add: VerifyHashChain_def Let_def)

section \<open>The signed byte string\<close>

text \<open>
  Claim C2. The byte string of a signed tree root that is signed, and that a verifier
  rebuilds, is \<open>ULong(epoch) || ULong(previousEpoch) || treeHash || previousSTRHash ||
  ad.Bytes()\<close> when the epoch is positive and \<open>ULong(epoch) || treeHash ||
  previousSTRHash || ad.Bytes()\<close> at epoch 0; \<open>ULong\<close> is the 8-byte image of the integer
  in the byte order of the host. \<^verbatim>\<open>NewSTR\<close> signs exactly that string.
\<close>

theorem Bytes_layout:
  "Bytes P adBytes str =
     (if 0 < Epoch str
      then ULongToBytes P (Epoch str) @ ULongToBytes P (PreviousEpoch str) @
           TreeHash str @ PreviousSTRHash str @ adBytes (Ad str)
      else ULongToBytes P (Epoch str) @
           TreeHash str @ PreviousSTRHash str @ adBytes (Ad str)) \<and>
   Signature (NewSTR P adBytes k ad m epoch prevHash) =
     ed25519_sign P k (Bytes P adBytes (NewSTR P adBytes k ad m epoch prevHash)) \<and>
   length (ULongToBytes P n) = 8 \<and>
   word_of_memory (byteorder P) (ULongToBytes P n) = n"
  by (simp add: Bytes_def SerializeInternal_def NewSTR_def Let_def
        length_ULongToBytes ULongToBytes_decodes)

section \<open>The hashing rules of the three node kinds\<close>

text \<open>
  Claim C3. With tree nonce \<open>K_n\<close>: an empty node at index \<open>i\<close> and level \<open>l\<close> hashes to
  \<open>digest(0x45, K_n, i, l)\<close>, a user leaf with commitment hash \<open>c\<close> to
  \<open>digest(0x4C, K_n, i, l, c)\<close>, the level written as 4 bytes; an interior node hashes
  to \<open>digest(leftHash, rightHash)\<close>, where a cached child hash is used when present and
  the child is hashed otherwise.
\<close>

theorem node_hash_rules:
  "fst (hash P m (emptyNode l i)) = blake3 P ([0x45] @ nonce m @ i @ UInt32ToBytes P l) \<and>
   fst (hash P m (userLeafNode l k v i c)) =
     blake3 P ([0x4C] @ nonce m @ i @ UInt32ToBytes P l @ Hash c) \<and>
   length (UInt32ToBytes P l) = 4 \<and>
   word_of_memory (byteorder P) (UInt32ToBytes P l) = l \<and>
   fst (hash P m (interiorNode l lc rc lh rh)) =
     blake3 P ((case lh of Some h \<Rightarrow> h | None \<Rightarrow> fst (hash P m lc)) @
               (case rh of Some h \<Rightarrow> h | None \<Rightarrow> fst (hash P m rc)))"
  by (simp add: Digest_def EmptyBranchIdentifier_def LeafIdentifier_def
        length_UInt32ToBytes UInt32ToBytes_decodes split: option.split prod.split)

section \<open>Cloning and the cached hashes\<close>

lemma copyOfBs_elems: "copyOfBs bs = Some (elems bs)"
  by (simp add: copyOfBs_def)

lemma hash_root_of_Clone:
  assumes "root m = interiorNode l lc rc lh rh"
  shows "m_hash (recomputeHash P (Clone m)) = Some (Digest P [elems lh, elems rh])"
  using assms by (simp add: recomputeHash_def Clone_def copyOfBs_elems)

lemma hash_root_dirty:
  assumes "root m = interiorNode l lc rc None None"
  shows "m_hash (recomputeHash P m) = Some (Digest P [fst (hash P m lc), fst (hash P m rc)])"
  using assms by (simp add: recomputeHash_def split: prod.split)

text \<open>
  Claim C10. \<^verbatim>\<open>copyOfBs\<close> turns a nil slice into a non-nil empty one, so the clone of an
  interior node whose cached child hash is nil carries a non-nil empty cached hash.
  \<^verbatim>\<open>hash\<close> takes that for a valid cache entry: the root hash recomputed on the clone is
  the digest of the root's cached entries as they were copied, the children are never
  hashed, and for a tree with dirty caches the clone's recomputed root hash differs from
  the original's wherever the digest tells the two inputs apart.
\<close>

theorem Clone_loses_dirty_marker:
  "copyOfBs None = Some [] \<and>
   leftHash (clone (interiorNode l lc rc None rh)) = Some [] \<and>
   rightHash (clone (interiorNode l lc rc lh None)) = Some [] \<and>
   (root m = interiorNode l lc rc lh rh \<longrightarrow>
      m_hash (recomputeHash P (Clone m)) = Some (Digest P [elems lh, elems rh])) \<and>
   (root m = interiorNode l lc rc None None \<and>
    Digest P [[], []] \<noteq> Digest P [fst (hash P m lc), fst (hash P m rc)] \<longrightarrow>
      m_hash (recomputeHash P (Clone m)) \<noteq> m_hash (recomputeHash P m))"
proof -
  have "copyOfBs None = Some []"
    by (simp add: copyOfBs_elems elems_def)
  moreover have "leftHash (clone (interiorNode l lc rc None rh)) = Some []"
    by (simp add: copyOfBs_elems elems_def)
  moreover have "rightHash (clone (interiorNode l lc rc lh None)) = Some []"
    by (simp add: copyOfBs_elems elems_def)
  moreover have "root m = interiorNode l lc rc lh rh \<longrightarrow>
      m_hash (recomputeHash P (Clone m)) = Some (Digest P [elems lh, elems rh])"
    by (simp add: hash_root_of_Clone)
  moreover have "root m = interiorNode l lc rc None None \<and>
    Digest P [[], []] \<noteq> Digest P [fst (hash P m lc), fst (hash P m rc)] \<longrightarrow>
      m_hash (recomputeHash P (Clone m)) \<noteq> m_hash (recomputeHash P m)"
    using hash_root_of_Clone [of m l lc rc None None P] hash_root_dirty [of m l lc rc P]
    by (auto simp add: elems_def)
  ultimately show ?thesis by blast
qed

theorem Clone_loses_dirty_marker_witness:
  "root (NewMerkleTree [7]) =
     interiorNode 0 (emptyNode 1 (ToBytes [False])) (emptyNode 1 (ToBytes [True])) None None \<and>
   m_hash (recomputeHash toy (Clone (NewMerkleTree [7]))) = Some (toy_digest []) \<and>
   m_hash (recomputeHash toy (Clone (NewMerkleTree [7]))) \<noteq>
     m_hash (recomputeHash toy (NewMerkleTree [7]))"
proof -
  let ?m = "NewMerkleTree [7]"
  let ?lc = "emptyNode 1 (ToBytes [False])"
  let ?rc = "emptyNode 1 (ToBytes [True])"
  have r: "root ?m = interiorNode 0 ?lc ?rc None None"
    by (simp add: NewMerkleTree_def newInteriorNode_def copyOfBools_def)
  have d: "Digest toy [[], []] \<noteq> Digest toy [fst (hash toy ?m ?lc), fst (hash toy ?m ?rc)]"
    by code_simp
  have e: "Digest toy [elems None, elems None] = toy_digest []"
    by (simp add: Digest_def toy_def elems_def)
  note T = Clone_loses_dirty_marker [of 0 ?lc ?rc None None ?m toy]
  from T r have "m_hash (recomputeHash toy (Clone ?m)) = Some (Digest toy [elems None, elems None])"
    by blast
  with e have a: "m_hash (recomputeHash toy (Clone ?m)) = Some (toy_digest [])"
    by simp
  from T r d have b: "m_hash (recomputeHash toy (Clone ?m)) \<noteq> m_hash (recomputeHash toy ?m)"
    by blast
  from r a b show ?thesis by blast
qed

section \<open>Setting the same binding twice\<close>

lemma insertLoop_not_empty:
  "insertLoop bits toAdd t d = Inr t' \<Longrightarrow> \<not> isEmpty t'"
proof (induction bits toAdd t d arbitrary: t' rule: insertLoop.induct)
  case (1 indexBits toAdd l k v i c depth)
  then show ?case
    by (auto simp add: Let_def split: if_splits option.splits)
next
  case (2 indexBits toAdd l lc rc lh rh depth)
  then show ?case
    by (auto split: if_splits sum.splits)
next
  case (3 indexBits toAdd l i depth)
  then show ?case by simp
qed

lemma insertLoop_again:
  assumes "index toAdd' = index toAdd"
    and "insertLoop bits toAdd t d = Inr t'"
  shows "insertLoop bits toAdd' t' d = insertLoop bits toAdd' t d \<and>
         (\<exists>t2. insertLoop bits toAdd' t d = Inr t2)"
  using assms
proof (induction bits toAdd t d arbitrary: t' rule: insertLoop.induct)
  case (1 indexBits toAdd l k v i c depth)
  show ?case
  proof (cases "i = index toAdd")
    case True
    with 1 show ?thesis by auto
  next
    case False
    with 1 show ?thesis
      by (auto simp add: Let_def split: if_splits option.splits)
  qed
next
  case (2 indexBits toAdd l lc rc lh rh depth)
  show ?case
  proof (cases "indexBits ! depth")
    case True
    show ?thesis
    proof (cases "isEmpty rc")
      case e: True
      with 2 True show ?thesis
        by (auto split: if_splits)
    next
      case ne: False
      from "2.prems" True ne obtain rc' where
        g: "\<not> counter_wrapped depth" "\<not> length indexBits \<le> depth"
        and r: "insertLoop indexBits toAdd rc (depth + 1) = Inr rc'"
        and t': "t' = interiorNode l lc rc' lh None"
        by (auto split: if_splits sum.splits)
      from "2.IH"(1) [OF g True ne "2.prems"(1) r]
      have ih: "insertLoop indexBits toAdd' rc' (depth + 1) = insertLoop indexBits toAdd' rc (depth + 1)"
        "\<exists>t2. insertLoop indexBits toAdd' rc (depth + 1) = Inr t2"
        by auto
      have "\<not> isEmpty rc'" using r by (rule insertLoop_not_empty)
      with ih g True ne t' show ?thesis by auto
    qed
  next
    case False
    show ?thesis
    proof (cases "isEmpty lc")
      case e: True
      with 2 False show ?thesis
        by (auto split: if_splits)
    next
      case ne: False
      from "2.prems" False ne obtain lc' where
        g: "\<not> counter_wrapped depth" "\<not> length indexBits \<le> depth"
        and r: "insertLoop indexBits toAdd lc (depth + 1) = Inr lc'"
        and t': "t' = interiorNode l lc' rc None rh"
        by (auto split: if_splits sum.splits)
      from "2.IH"(2) [OF g False ne "2.prems"(1) r]
      have ih: "insertLoop indexBits toAdd' lc' (depth + 1) = insertLoop indexBits toAdd' lc (depth + 1)"
        "\<exists>t2. insertLoop indexBits toAdd' lc (depth + 1) = Inr t2"
        by auto
      have "\<not> isEmpty lc'" using r by (rule insertLoop_not_empty)
      with ih g False ne t' show ?thesis by auto
    qed
  qed
next
  case (3 indexBits toAdd l i depth)
  then show ?case by simp
qed

lemma Set_again:
  assumes "Set P salt1 m idx k v = Inr m1"
  shows "Set P salt2 m1 idx k v = Set P salt2 m idx k v \<and> (\<exists>m2. Set P salt2 m idx k v = Inr m2)"
proof -
  let ?t1 = "userLeafNode 0 k (elems (copyOfBs (Some v))) idx (NewCommit P salt1 [bytes_of_string k, v])"
  let ?t2 = "userLeafNode 0 k (elems (copyOfBs (Some v))) idx (NewCommit P salt2 [bytes_of_string k, v])"
  from assms obtain r where r: "insertLoop (ToBits idx) ?t1 (root m) 0 = Inr r" and m1: "m1 = m \<lparr> root := r \<rparr>"
    by (auto simp add: Set_def insertNode_def Let_def split: sum.splits)
  have "index ?t2 = index ?t1" by simp
  from insertLoop_again [OF this r] m1 show ?thesis
    by (auto simp add: Set_def insertNode_def Let_def split: sum.splits)
qed

text \<open>
  Claim C4, as amended. \<^verbatim>\<open>Set\<close> draws a fresh commitment salt on every call. Whenever
  \<^verbatim>\<open>Set(index, name, value)\<close> returns, performing it again on the result returns too, and
  yields exactly the tree - hence the same root hash - as performing on the original tree
  the one \<^verbatim>\<open>Set\<close> that draws the second salt; when both calls draw the same salt the
  second call changes nothing.
\<close>

theorem Set_twice:
  "Set P salt1 m idx k v = Inr m1 \<longrightarrow>
     (\<exists>m2. Set P salt2 m1 idx k v = Inr m2 \<and> Set P salt2 m idx k v = Inr m2) \<and>
     (\<forall>m2 m2'. Set P salt2 m1 idx k v = Inr m2 \<and> Set P salt2 m idx k v = Inr m2' \<longrightarrow>
        m_hash (recomputeHash P m2) = m_hash (recomputeHash P m2')) \<and>
     Set P salt1 m1 idx k v = Inr m1"
proof
  assume a: "Set P salt1 m idx k v = Inr m1"
  from Set_again [OF a, of salt2] Set_again [OF a, of salt1] a
  show "(\<exists>m2. Set P salt2 m1 idx k v = Inr m2 \<and> Set P salt2 m idx k v = Inr m2) \<and>
     (\<forall>m2 m2'. Set P salt2 m1 idx k v = Inr m2 \<and> Set P salt2 m idx k v = Inr m2' \<longrightarrow>
        m_hash (recomputeHash P m2) = m_hash (recomputeHash P m2')) \<and>
     Set P salt1 m1 idx k v = Inr m1"
    by auto
qed

text \<open>The two calls on the small tree, evaluated.\<close>

lemma toy_Sets:
  "Set toy [1] (NewMerkleTree [7]) toy_index ''a'' [5] = Inr toy_set_once"
  "Set toy [2] toy_set_once toy_index ''a'' [5] = Inr toy_set_twice"
  "Set toy [2] (NewMerkleTree [7]) toy_index ''a'' [5] = Inr toy_set_twice"
  "m_hash (recomputeHash toy toy_set_once) = Some (replicate 31 0 @ [140])"
  "m_hash (recomputeHash toy toy_set_twice) = Some (replicate 31 0 @ [141])"
  by code_simp+

theorem Set_twice_witness:
  "Set toy [2] toy_set_once toy_index ''a'' [5] = Inr toy_set_twice \<and>
   Set toy [2] (NewMerkleTree [7]) toy_index ''a'' [5] = Inr toy_set_twice \<and>
   Set toy [1] toy_set_once toy_index ''a'' [5] = Inr toy_set_once"
  using Set_twice [of toy "[1]" "NewMerkleTree [7]" toy_index "''a''" "[5]" toy_set_once "[2]"]
        toy_Sets
  by auto

text \<open>
  The claim as stated compares the root hash after two calls with the root hash after the
  first. The second call replaces the commitment, and with it the leaf hash: on the small
  tree the recomputed root hashes after one and after two calls differ.
\<close>

theorem Set_twice_changes_root_hash:
  "Set toy [1] (NewMerkleTree [7]) toy_index ''a'' [5] = Inr toy_set_once \<and>
   Set toy [2] toy_set_once toy_index ''a'' [5] = Inr toy_set_twice \<and>
   m_hash (recomputeHash toy toy_set_twice) \<noteq> m_hash (recomputeHash toy toy_set_once)"
  using toy_Sets by simp

section \<open>What a lookup collects\<close>

lemma searchLoop_pruned:
  "searchLoop n bits d acc = Inr (leaf, pruned) \<Longrightarrow>
     pruned = acc @ map copy_hashArr (cached_sibling_hashes n bits d)"
  by (induction n bits d acc rule: searchLoop.induct) (auto split: if_splits)

lemma length_hash:
  "\<forall>x. length (blake3 P x) = HashSizeByte \<Longrightarrow> length (fst (hash P m n)) = HashSizeByte"
  by (cases n) (auto simp add: Digest_def split: prod.splits option.splits)

lemma copy_hashArr_full: "length h = HashSizeByte \<Longrightarrow> copy_hashArr (Some h) = h"
  by (simp add: copy_hashArr_def elems_def)

lemma current_siblings:
  assumes "\<forall>x. length (blake3 P x) = HashSizeByte"
  shows "caches_current P m n \<Longrightarrow>
           map copy_hashArr (cached_sibling_hashes n bits d) =
           map (\<lambda>s. fst (hash P m s)) (siblings n bits d)"
  by (induction n bits d rule: siblings.induct)
     (auto simp add: copy_hashArr_full length_hash [OF assms])

text \<open>
  Claim C5, as amended. \<^verbatim>\<open>Get\<close> does not hash anything: each entry of the pruned tree is
  the cached hash of the sibling as the walked interior node holds it, copied into a
  32-byte array (all zeros for a nil cache), in root-to-leaf order. For a tree whose
  cached hashes are all present and current, as after \<^verbatim>\<open>recomputeHash\<close>, and a digest of
  32 bytes, each entry equals the current hash of the sibling of the node walked through
  at that depth.
\<close>

theorem Get_PrunedTree:
  "Get m idx = Inr ap \<longrightarrow>
     PrunedTree ap = map copy_hashArr (cached_sibling_hashes (root m) (ToBits idx) 0) \<and>
     (caches_current P m (root m) \<and> (\<forall>x. length (blake3 P x) = HashSizeByte) \<longrightarrow>
        PrunedTree ap = map (\<lambda>s. fst (hash P m s)) (siblings (root m) (ToBits idx) 0))"
proof
  assume g: "Get m idx = Inr ap"
  then obtain lf pruned where s: "searchLoop (root m) (ToBits idx) 0 [] = Inr (lf, pruned)"
    and p: "PrunedTree ap = pruned"
    by (auto simp add: Get_def Let_def split: sum.splits merkleNode.splits)
  from searchLoop_pruned [OF s] p
  have 1: "PrunedTree ap = map copy_hashArr (cached_sibling_hashes (root m) (ToBits idx) 0)"
    by simp
  then show "PrunedTree ap = map copy_hashArr (cached_sibling_hashes (root m) (ToBits idx) 0) \<and>
     (caches_current P m (root m) \<and> (\<forall>x. length (blake3 P x) = HashSizeByte) \<longrightarrow>
        PrunedTree ap = map (\<lambda>s. fst (hash P m s)) (siblings (root m) (ToBits idx) 0))"
    using current_siblings [of P m "root m" "ToBits idx" 0] by auto
qed

lemma toy_digest_length: "\<forall>x. length (blake3 toy x) = HashSizeByte"
  by (simp add: toy_def toy_digest_def HashSizeByte_def)

lemma toy_Gets:
  "Get (recomputeHash toy toy_set_once) toy_index = Inr (toy_path (replicate 31 0 @ [78]))"
  "caches_current toy (recomputeHash toy toy_set_once) (root (recomputeHash toy toy_set_once))"
  "Get toy_set_once toy_index = Inr (toy_path (replicate 32 0))"
  "map (\<lambda>s. fst (hash toy toy_set_once s)) (siblings (root toy_set_once) (ToBits toy_index) 0)
     = [replicate 31 0 @ [78]]"
  "PrunedTree (toy_path (replicate 32 0)) \<noteq> [replicate 31 0 @ [78]]"
  by code_simp+

theorem Get_PrunedTree_witness:
  "Get (recomputeHash toy toy_set_once) toy_index = Inr (toy_path (replicate 31 0 @ [78])) \<and>
   PrunedTree (toy_path (replicate 31 0 @ [78])) =
     map (\<lambda>s. fst (hash toy (recomputeHash toy toy_set_once) s))
       (siblings (root (recomputeHash toy toy_set_once)) (ToBits toy_index) 0)"
  using Get_PrunedTree [of "recomputeHash toy toy_set_once" toy_index
          "toy_path (replicate 31 0 @ [78])" toy]
        toy_Gets(1,2) toy_digest_length
  by blast

text \<open>
  The claim as stated covers every tree. After a \<^verbatim>\<open>Set\<close> and before the next
  \<^verbatim>\<open>recomputeHash\<close> the caches on the path are nil: the lookup returns 32 zero bytes
  where the sibling, an empty node, hashes to something else.
\<close>

theorem Get_reads_dirty_cache:
  "Get toy_set_once toy_index = Inr (toy_path (replicate 32 0)) \<and>
   map (\<lambda>s. fst (hash toy toy_set_once s)) (siblings (root toy_set_once) (ToBits toy_index) 0)
     = [replicate 31 0 @ [78]] \<and>
   PrunedTree (toy_path (replicate 32 0)) \<noteq> [replicate 31 0 @ [78]]"
  using toy_Gets(3,4,5) by blast

section \<open>Key lookups\<close>


text \<open>The three names of the small directory: bound, pending, unknown.\<close>

lemma toy_lookups:
  "pad_Lookup (toy_pad 0) (pad toy_dir) ''a'' = Inr (toy_ap ''a'')"
  "pad_Lookup (toy_pad 0) (pad toy_dir) ''b'' = Inr (toy_ap ''b'')"
  "pad_Lookup (toy_pad 0) (pad toy_dir) ''c'' = Inr (toy_ap ''c'')"
  "LookupIndex (toy_ap ''a'') \<noteq> Index (Leaf (toy_ap ''a''))"
  "LookupIndex (toy_ap ''b'') \<noteq> Index (Leaf (toy_ap ''b''))"
  "LookupIndex (toy_ap ''c'') = Index (Leaf (toy_ap ''c''))"
  "tbs toy_dir ''a'' = Some toy_tb"
  "tbs toy_dir ''b'' = None"
  by code_simp+



section \<open>Registering a name that exists\<close>

text \<open>
  Claim C7, as amended. For every \<^verbatim>\<open>Register\<close> request with a non-empty username and a
  non-empty key for which the PAD lookup returns a path: if the name is bound in the tree
  the response is \<open>ReqNameExisted\<close> with the proof of inclusion and no TB; if it is not
  bound but has a temporary binding the response is \<open>ReqNameExisted\<close> with the proof of
  absence and that TB. In both cases the directory is returned as it was: the PAD is not
  set and the TBs are not modified.
\<close>

theorem Register_existing_name:
  "Username req \<noteq> [] \<and> Key req \<noteq> [] \<and> pad_Lookup ops (pad d) (Username req) = Inr ap \<longrightarrow>
     (LookupIndex ap = Index (Leaf ap) \<longrightarrow>
        Register ops d req = (NewRegistrationProof ap (LatestSTR ops d) None ReqNameExisted, d)) \<and>
     (LookupIndex ap \<noteq> Index (Leaf ap) \<and> tbs d (Username req) = Some tb \<longrightarrow>
        Register ops d req =
          (NewRegistrationProof ap (LatestSTR ops d) (Some tb) ReqNameExisted, d))"
  by (simp add: Register_def)

theorem Register_existing_name_witness:
  "Register (toy_pad 0) toy_dir \<lparr> Username = ''c'', Key = [8] \<rparr> =
     (NewRegistrationProof (toy_ap ''c'') (LatestSTR (toy_pad 0) toy_dir) None ReqNameExisted,
      toy_dir) \<and>
   Register (toy_pad 0) toy_dir \<lparr> Username = ''a'', Key = [8] \<rparr> =
     (NewRegistrationProof (toy_ap ''a'') (LatestSTR (toy_pad 0) toy_dir) (Some toy_tb)
        ReqNameExisted, toy_dir)"
  using Register_existing_name [of "\<lparr> Username = ''c'', Key = [8] \<rparr>" "toy_pad 0" toy_dir "toy_ap ''c''"]
        Register_existing_name [of "\<lparr> Username = ''a'', Key = [8] \<rparr>" "toy_pad 0" toy_dir "toy_ap ''a''" toy_tb]
        toy_lookups
  by simp

text \<open>
  The claim as stated covers every request whose name exists. A request with an empty key
  is answered \<open>ErrMalformedMessage\<close> before the name is looked up, for a bound name and
  for a pending one.
\<close>

theorem Register_existing_name_empty_key:
  "pad_Lookup (toy_pad 0) (pad toy_dir) ''c'' = Inr (toy_ap ''c'') \<and>
   LookupIndex (toy_ap ''c'') = Index (Leaf (toy_ap ''c'')) \<and>
   Register (toy_pad 0) toy_dir \<lparr> Username = ''c'', Key = [] \<rparr> =
     (NewErrorResponse ErrMalformedMessage, toy_dir) \<and>
   tbs toy_dir ''a'' = Some toy_tb \<and>
   Register (toy_pad 0) toy_dir \<lparr> Username = ''a'', Key = [] \<rparr> =
     (NewErrorResponse ErrMalformedMessage, toy_dir)"
  using toy_lookups by (simp add: Register_def)

section \<open>The number of proofs a monitoring request returns\<close>

lemma unat_epoch_Suc: "ep \<le> endEp \<Longrightarrow> endEp \<noteq> - 1 \<Longrightarrow> unat (ep + 1 :: 64 word) = Suc (unat ep)"
proof -
  assume a: "ep \<le> endEp" "endEp \<noteq> - 1"
  then have "ep \<noteq> - 1"
    by (metis word_order.extremum_uniqueI)
  then have "1 + ep \<noteq> 0" by (simp add: add_eq_0_iff add.commute)
  then show ?thesis using unatSuc [of ep] by (simp add: add.commute)
qed

lemma monitorLoop_returns:
  assumes "endEp \<noteq> - 1"
    and "n = unat endEp + 1 - unat ep"
    and "\<forall>e. ep \<le> e \<and> e \<le> endEp \<longrightarrow> (\<exists>ap. pad_LookupInEpoch ops (pad d) (Username req) e = Inr ap)"
  shows "\<exists>aps' strs'. monitorLoop ops d req ep endEp aps strs
            = Some (NewMonitoringProof (aps @ aps') (strs @ strs')) \<and>
          length aps' = n \<and> length strs' = n"
  using assms
proof (induction n arbitrary: ep aps strs)
  case 0
  then have "\<not> ep \<le> endEp" by (simp add: word_le_nat_alt)
  then show ?case by (simp add: monitorLoop.simps)
next
  case (Suc n)
  then have le: "ep \<le> endEp" by (simp add: word_le_nat_alt)
  with Suc.prems obtain ap where ap: "pad_LookupInEpoch ops (pad d) (Username req) ep = Inr ap"
    by blast
  have s: "unat (ep + 1) = Suc (unat ep)" using le Suc.prems(1) by (rule unat_epoch_Suc)
  have n: "n = unat endEp + 1 - unat (ep + 1)" using Suc.prems(2) s by simp
  have "ep \<le> ep + 1" using s by (simp add: word_le_nat_alt)
  then have all: "\<forall>e. ep + 1 \<le> e \<and> e \<le> endEp \<longrightarrow>
            (\<exists>ap. pad_LookupInEpoch ops (pad d) (Username req) e = Inr ap)"
    using Suc.prems(3) by (meson order_trans)
  from Suc.IH [OF Suc.prems(1) n all, of "aps @ [ap]" "strs @ [NewDirSTR (pad_GetSTR ops (pad d) ep)]"]
  obtain aps' strs' where
    r: "monitorLoop ops d req (ep + 1) endEp (aps @ [ap]) (strs @ [NewDirSTR (pad_GetSTR ops (pad d) ep)])
        = Some (NewMonitoringProof ((aps @ [ap]) @ aps') ((strs @ [NewDirSTR (pad_GetSTR ops (pad d) ep)]) @ strs'))"
    and l: "length aps' = n" "length strs' = n"
    by blast
  have "monitorLoop ops d req ep endEp aps strs
        = Some (NewMonitoringProof (aps @ (ap # aps')) (strs @ (NewDirSTR (pad_GetSTR ops (pad d) ep) # strs')))"
    by (subst monitorLoop.simps) (simp add: le ap r)
  with l show ?case by (metis length_Cons)
qed

text \<open>
  Claim C8, as amended. For a \<^verbatim>\<open>Monitor\<close> request with non-empty username, start epoch
  \<open>s\<close> not greater than the latest epoch and \<open>s \<le> e\<close>, let \<open>e'\<close> be the smaller of the
  requested end epoch \<open>e\<close> and the latest epoch. If \<open>e' < 2^64 - 1\<close> and the PAD answers
  the lookup in every epoch of \<open>[s, e']\<close>, the call returns a monitoring proof with exactly
  \<open>e' - s + 1\<close> authentication paths and \<open>e' - s + 1\<close> STRs.
\<close>

theorem Monitor_count:
  assumes "Username req \<noteq> []"
    and "StartEpoch req \<le> Epoch (embeddedSTR (LatestSTR ops d))"
    and "StartEpoch req \<le> EndEpoch req"
    and "endEp = min (EndEpoch req) (Epoch (embeddedSTR (LatestSTR ops d)))"
    and "endEp \<noteq> - 1"
    and "\<forall>ep. StartEpoch req \<le> ep \<and> ep \<le> endEp \<longrightarrow>
           (\<exists>ap. pad_LookupInEpoch ops (pad d) (Username req) ep = Inr ap)"
  shows "\<exists>aps strs. Monitor ops d req = Some (NewMonitoringProof aps strs) \<and>
           length aps = unat endEp - unat (StartEpoch req) + 1 \<and>
           length strs = unat endEp - unat (StartEpoch req) + 1"
proof -
  have le: "StartEpoch req \<le> endEp"
    using assms(2,3,4) by simp
  then have n: "unat endEp - unat (StartEpoch req) + 1 = unat endEp + 1 - unat (StartEpoch req)"
    by (simp add: word_le_nat_alt)
  have m: "Monitor ops d req = monitorLoop ops d req (StartEpoch req) endEp [] []"
    using assms(1,2,3,4) by (auto simp add: Monitor_def Let_def min_def not_le)
  from monitorLoop_returns [OF assms(5) refl assms(6), of "[]" "[]"]
  obtain aps strs where
    "monitorLoop ops d req (StartEpoch req) endEp [] [] = Some (NewMonitoringProof aps strs)"
    "length aps = unat endEp + 1 - unat (StartEpoch req)"
    "length strs = unat endEp + 1 - unat (StartEpoch req)"
    by auto
  with m n show ?thesis by metis
qed

theorem Monitor_count_witness:
  "\<exists>aps strs. Monitor (toy_pad 3) toy_dir \<lparr> Username = ''c'', StartEpoch = 1, EndEpoch = 3 \<rparr>
        = Some (NewMonitoringProof aps strs) \<and> length aps = 3 \<and> length strs = 3"
proof -
  let ?req = "\<lparr> Username = ''c'', StartEpoch = 1, EndEpoch = 3 \<rparr>"
  have l: "Epoch (embeddedSTR (LatestSTR (toy_pad 3) toy_dir)) = 3"
    by (simp add: LatestSTR_def NewDirSTR_def toy_pad_def toy_str_def NewSTR_def Let_def)
  have g: "Get toy_tree (bytes_of_string ''c'') = Inr (toy_ap ''c'')"
    by code_simp
  have a: "\<forall>ep. StartEpoch ?req \<le> ep \<and> ep \<le> 3 \<longrightarrow>
           (\<exists>ap. pad_LookupInEpoch (toy_pad 3) (pad toy_dir) (Username ?req) ep = Inr ap)"
    by (simp add: toy_pad_def toy_dir_def g)
  from Monitor_count [of ?req "toy_pad 3" toy_dir 3] l a
  show ?thesis by simp
qed

text \<open>
  The claim as stated promises \<open>e - s + 1\<close> of each for the requested \<open>e\<close>. With the latest
  epoch 0, a request for \<open>[0, 5]\<close> returns one path and one STR, not six.
\<close>

theorem Monitor_clamps_end_epoch:
  "Username \<lparr> Username = ''c'', StartEpoch = 0, EndEpoch = 5 \<rparr> \<noteq> [] \<and>
   (0 :: 64 word) \<le> Epoch (embeddedSTR (LatestSTR (toy_pad 0) toy_dir)) \<and>
   (0 :: 64 word) \<le> 5 \<and>
   Monitor (toy_pad 0) toy_dir \<lparr> Username = ''c'', StartEpoch = 0, EndEpoch = 5 \<rparr>
     = Some (NewMonitoringProof [toy_ap ''c''] [NewDirSTR (toy_str 0)]) \<and>
   length [toy_ap ''c''] \<noteq> unat (5 :: 64 word) - unat (0 :: 64 word) + 1"
proof -
  have l: "Epoch (embeddedSTR (LatestSTR (toy_pad 0) toy_dir)) = 0"
    by (simp add: LatestSTR_def NewDirSTR_def toy_pad_def toy_str_def NewSTR_def Let_def)
  have g: "Get toy_tree (bytes_of_string ''c'') = Inr (toy_ap ''c'')"
    by code_simp
  have "monitorLoop (toy_pad 0) toy_dir \<lparr> Username = ''c'', StartEpoch = 0, EndEpoch = 5 \<rparr> 0 0 [] []
        = Some (NewMonitoringProof [toy_ap ''c''] [NewDirSTR (toy_str 0)])"
    apply (subst monitorLoop.simps)
    apply (simp add: toy_pad_def toy_dir_def g)
    apply (subst monitorLoop.simps)
    apply simp
    done
  then show ?thesis using l by (simp add: Monitor_def Let_def)
qed

section \<open>Clone isolation\<close>

subsection \<open>Frames\<close>

lemma frame_refl: "frame R s s"
  by (simp add: frame_def)

lemma frame_trans: "frame R s s' \<Longrightarrow> frame R s' s'' \<Longrightarrow> frame R s s''"
  by (auto simp add: frame_def)

lemma frame_upd: "a \<in> R \<Longrightarrow> frame R s (s[a := x])"
  by (cases "a < length s") (auto simp add: frame_def nth_list_update)

lemma frame_alloc: "frame R s (s @ [x])"
  by (auto simp add: frame_def nth_append)

lemma fresh_in_frame: "fresh_in R s \<Longrightarrow> frame R s s' \<Longrightarrow> fresh_in R s'"
  by (auto simp add: fresh_in_def frame_def)

lemma closed_upd:
  "closed s R \<Longrightarrow> (a < length s \<Longrightarrow> a \<in> R \<Longrightarrow> set (pointers x) \<subseteq> R) \<Longrightarrow> closed (s[a := x]) R"
  by (cases "a < length s") (auto simp add: closed_def nth_list_update split: if_splits)

lemma closed_alloc:
  "closed s R \<Longrightarrow> (length s \<in> R \<Longrightarrow> set (pointers x) \<subseteq> R) \<Longrightarrow> closed (s @ [x]) R"
  by (auto simp add: closed_def nth_append less_Suc_eq)

lemma closed_cell: "closed s R \<Longrightarrow> a < length s \<Longrightarrow> a \<in> R \<Longrightarrow> set (pointers (s ! a)) \<subseteq> R"
  by (simp add: closed_def)

lemma pointers_set_parent: "set (pointers (set_parent ob x)) \<subseteq> set (pointers ob) \<union> set_option x"
  by (cases ob; cases x) (auto split: option.splits)

lemma pointers_set_left: "set (pointers (set_left ob x)) \<subseteq> set (pointers ob) \<union> set_option x"
  by (cases ob; cases x) (auto split: option.splits)

lemma pointers_set_right: "set (pointers (set_right ob x)) \<subseteq> set (pointers ob) \<union> set_option x"
  by (cases ob; cases x) (auto split: option.splits)

lemma pointers_set_lvl [simp]: "pointers (set_lvl ob x) = pointers ob"
  by (cases ob) auto

lemma pointers_set_lHash [simp]: "pointers (set_lHash ob x) = pointers ob"
  by (cases ob) auto

lemma pointers_set_rHash [simp]: "pointers (set_rHash ob x) = pointers ob"
  by (cases ob) auto

lemma parent_pointer:
  "parent ob = Some a \<Longrightarrow> \<forall>nc r h. ob \<noteq> TreeObj nc r h \<Longrightarrow> a \<in> set (pointers ob)"
  by (cases ob) auto

text \<open>One write into the region: both properties at once.\<close>

lemma write_in_region:
  assumes "closed s R" "frame R s0 s" "a \<in> R" "a < length s \<Longrightarrow> set (pointers x) \<subseteq> R"
  shows "closed (s[a := x]) R \<and> frame R s0 (s[a := x])"
  using assms by (auto intro: closed_upd frame_trans frame_upd)

lemma newInteriorNode_st_eq:
  "newInteriorNode_st s par lv bits =
     (s @ [EmptyObj (Some (length s + 2)) (lv + 1) (ToBytes (bits @ [False])),
           EmptyObj (Some (length s + 2)) (lv + 1) (ToBytes (bits @ [True])),
           InteriorObj par lv (Some (length s)) (Some (length s + 1)) None None],
      length s + 2)"
  by (simp add: newInteriorNode_st_def alloc_def Let_def copyOfBools_def nth_append
        list_update_append)

lemma newInteriorNode_st_region:
  assumes "newInteriorNode_st s par lv bits = (s', n)"
    and "closed s R" "fresh_in R s" "set_option par \<subseteq> R"
  shows "closed s' R \<and> frame R s s' \<and> n \<in> R \<and> n < length s' \<and>
         (\<forall>a<length s. s' ! a = s ! a)"
proof -
  from assms(1) have s': "s' = s @ [EmptyObj (Some (length s + 2)) (lv + 1) (ToBytes (bits @ [False])),
           EmptyObj (Some (length s + 2)) (lv + 1) (ToBytes (bits @ [True])),
           InteriorObj par lv (Some (length s)) (Some (length s + 1)) None None]"
    and n: "n = length s + 2"
    by (auto simp add: newInteriorNode_st_eq)
  have f: "length s \<in> R" "length s + 1 \<in> R" "length s + 2 \<in> R"
    using assms(3) by (simp_all add: fresh_in_def)
  have "closed s' R"
    unfolding s' closed_def using assms(2,4) f
    by (auto simp add: closed_def nth_append nth_Cons split: nat.splits option.splits)
  moreover have "frame R s s'"
    unfolding s' by (auto simp add: frame_def nth_append)
  moreover have "\<forall>a<length s. s' ! a = s ! a"
    unfolding s' by (simp add: nth_append)
  ultimately show ?thesis using f n s' by simp
qed

subsection \<open>The insertion stays within the region of its tree\<close>

lemma within_start: "closed s R \<Longrightarrow> within R s s"
  by (simp add: within_def frame_refl)

lemma within_write:
  "within R s0 s \<Longrightarrow> a \<in> R \<Longrightarrow> (a < length s \<Longrightarrow> set (pointers x) \<subseteq> R) \<Longrightarrow>
   within R s0 (s[a := x])"
  using write_in_region [of s R s0 a x] by (simp add: within_def)

lemma within_set_parent:
  "within R s0 s \<Longrightarrow> a \<in> R \<Longrightarrow> set_option x \<subseteq> R \<Longrightarrow> within R s0 (s[a := set_parent (s ! a) x])"
  apply (rule within_write, assumption, assumption)
  using pointers_set_parent [of "s ! a" x] closed_cell [of s R a]
  by (auto simp add: within_def)

lemma within_set_left:
  "within R s0 s \<Longrightarrow> a \<in> R \<Longrightarrow> set_option x \<subseteq> R \<Longrightarrow> within R s0 (s[a := set_left (s ! a) x])"
  apply (rule within_write, assumption, assumption)
  using pointers_set_left [of "s ! a" x] closed_cell [of s R a]
  by (auto simp add: within_def)

lemma within_set_right:
  "within R s0 s \<Longrightarrow> a \<in> R \<Longrightarrow> set_option x \<subseteq> R \<Longrightarrow> within R s0 (s[a := set_right (s ! a) x])"
  apply (rule within_write, assumption, assumption)
  using pointers_set_right [of "s ! a" x] closed_cell [of s R a]
  by (auto simp add: within_def)

lemma within_set_lvl:
  "within R s0 s \<Longrightarrow> a \<in> R \<Longrightarrow> within R s0 (s[a := set_lvl (s ! a) x])"
  apply (rule within_write, assumption, assumption)
  using closed_cell [of s R a]
  by (auto simp add: within_def)

lemma within_set_lHash:
  "within R s0 s \<Longrightarrow> a \<in> R \<Longrightarrow> within R s0 (s[a := set_lHash (s ! a) x])"
  apply (rule within_write, assumption, assumption)
  using closed_cell [of s R a]
  by (auto simp add: within_def)

lemma within_set_rHash:
  "within R s0 s \<Longrightarrow> a \<in> R \<Longrightarrow> within R s0 (s[a := set_rHash (s ! a) x])"
  apply (rule within_write, assumption, assumption)
  using closed_cell [of s R a]
  by (auto simp add: within_def)

lemma within_copy:
  "within R s0 s \<Longrightarrow> a \<in> R \<Longrightarrow> b \<in> R \<Longrightarrow> b < length s \<Longrightarrow> within R s0 (s[a := s ! b])"
  apply (rule within_write, assumption, assumption)
  using closed_cell [of s R b]
  by (auto simp add: within_def)

lemma within_pointer:
  "within R s0 s \<Longrightarrow> deref s a = Some ob \<Longrightarrow> a \<in> R \<Longrightarrow> b \<in> set (pointers ob) \<Longrightarrow> b \<in> R"
  using closed_cell [of s R a] by (auto simp add: within_def deref_def split: if_splits)

lemma within_newInteriorNode:
  assumes "within R s0 s" "fresh_in R s" "set_option par \<subseteq> R"
    and "newInteriorNode_st s par lv bits = (s', n)"
  shows "within R s0 s' \<and> n \<in> R \<and> n < length s' \<and> length s \<le> length s' \<and>
         (\<forall>a<length s. s' ! a = s ! a)"
  using newInteriorNode_st_region [OF assms(4) _ assms(2,3), of ] assms(1)
  by (auto simp add: within_def frame_def intro: frame_trans)

lemma replace_leaf_within:
  assumes "within R s0 s" "toAdd \<in> R" "cur \<in> R"
    and "deref s cur = Some (UserLeafObj p l k v i c)"
    and "deref s toAdd = Some ob"
  shows "within R s0 (replace_leaf s toAdd cur)"
proof -
  have p: "set_option (parent (s ! cur)) \<subseteq> R"
    using within_pointer [OF assms(1,4,3)] assms(4)
    by (auto simp add: deref_def split: if_splits option.splits)
  have lt: "toAdd < length s"
    using assms(5) by (simp add: deref_def split: if_splits)
  show ?thesis
    unfolding replace_leaf_def Let_def
    by (intro within_copy within_set_lvl within_set_parent assms p) (simp add: lt)
qed

lemma attach_within:
  assumes "within R s0 s" "toAdd \<in> R" "cur \<in> R"
  shows "within R s0 (attach s cur toAdd direction d)"
proof -
  have c: "set_option (Some cur) \<subseteq> R" "set_option (Some toAdd) \<subseteq> R"
    using assms by simp_all
  show ?thesis
    unfolding attach_def Let_def
    by (cases direction; simp only: if_True if_False;
        intro within_set_parent within_set_lvl within_set_right within_set_left assms c)
qed

lemma hang_leaf_within:
  assumes "within R s0 s" "n \<in> R" "cur \<in> R"
  shows "within R s0 (hang_leaf s n cur direction d)"
proof -
  have c: "set_option (Some cur) \<subseteq> R" "set_option (Some n) \<subseteq> R"
    using assms by simp_all
  show ?thesis
    unfolding hang_leaf_def Let_def
    by (cases direction; simp only: if_True if_False;
        intro within_set_parent within_set_lvl within_set_right within_set_left assms c)
qed

lemma rewire_within:
  assumes "within R s0 s" "n \<in> R" "par \<in> R"
  shows "within R s0 (rewire s par cur n)"
proof -
  have c: "set_option (Some n) \<subseteq> R"
    using assms by simp
  have "within R s0 (s[par := set_left (s ! par) (Some n)])"
    and "within R s0 (s[par := set_right (s ! par) (Some n)])"
    by (intro within_set_right within_set_left assms c)+
  then show ?thesis
    unfolding rewire_def by (rule if_split [THEN iffD2, OF conjI [OF impI impI]])
qed

lemma descend_within:
  assumes "within R s0 s" "toAdd \<in> R" "cur \<in> R"
    and "deref s cur = Some (InteriorObj p l lc rc lh rh)"
  shows "descend s bits toAdd cur d = Break s' \<Longrightarrow> within R s0 s'"
    and "descend s bits toAdd cur d = Continue s' n' d' \<Longrightarrow> within R s0 s' \<and> n' \<in> R"
proof -
  have cl: "cur < length s" and sc: "s ! cur = InteriorObj p l lc rc lh rh"
    using assms(4) by (simp_all add: deref_def split: if_splits)
  have kids: "set_option lc \<subseteq> R" "set_option rc \<subseteq> R"
    using within_pointer [OF assms(1,4,3)] by (auto split: option.splits)
  have w1: "within R s0 (s[cur := set_rHash (s ! cur) None])"
    and w2: "within R s0 (s[cur := set_lHash (s ! cur) None])"
    using assms by (auto intro: within_set_rHash within_set_lHash)
  {
    assume "descend s bits toAdd cur d = Break s'"
    then show "within R s0 s'"
      using attach_within [OF w1 assms(2,3)] attach_within [OF w2 assms(2,3)]
      by (auto simp add: descend_def Let_def
               split: if_splits option.splits object.splits)
  }
  {
    assume "descend s bits toAdd cur d = Continue s' n' d'"
    then show "within R s0 s' \<and> n' \<in> R"
      using w1 w2 kids cl sc
      by (auto simp add: descend_def Let_def
               split: if_splits option.splits object.splits)
  }
qed

lemma push_down_Continue:
  assumes "(case GetNthBit (uindex (s1 ! cur)) (of_nat d) of
         None \<Rightarrow> Panic IndexOutOfRange
       | Some direction \<Rightarrow>
           (case deref (hang_leaf s1 n cur direction d) par of
              Some (InteriorObj pp pl plc prc plh prh) \<Rightarrow>
                Continue (rewire (hang_leaf s1 n cur direction d) par cur n) n d
            | _ \<Rightarrow> Panic ErrInvalidTree)) = Continue s' n' d'"
  shows "\<exists>direction. s' = rewire (hang_leaf s1 n cur direction d) par cur n \<and> n' = n"
  using assms
  apply (cases "GetNthBit (uindex (s1 ! cur)) (of_nat d)")
   apply simp
  subgoal for direction
    apply (cases "deref (hang_leaf s1 n cur direction d) par")
     apply simp
    subgoal for ob
      apply (cases ob)
         apply auto
      done
    done
  done

lemma push_down_elim:
  assumes "push_down s bits cur par d = Continue s' n' d'"
  obtains s1 n direction where
    "newInteriorNode_st s (Some par) (of_nat d) (take d bits) = (s1, n)"
    "s' = rewire (hang_leaf s1 n cur direction d) par cur n" "n' = n"
proof -
  obtain s1 n where nn: "newInteriorNode_st s (Some par) (of_nat d) (take d bits) = (s1, n)"
    by (cases "newInteriorNode_st s (Some par) (of_nat d) (take d bits)")
  from assms have a: "\<not> counter_wrapped d" "\<not> length bits < d"
    by (cases "counter_wrapped d"; cases "length bits < d"; simp add: push_down_def)+
  with nn have e: "push_down s bits cur par d =
      (case GetNthBit (uindex (s1 ! cur)) (of_nat d) of
         None \<Rightarrow> Panic IndexOutOfRange
       | Some direction \<Rightarrow>
           (case deref (hang_leaf s1 n cur direction d) par of
              Some (InteriorObj pp pl plc prc plh prh) \<Rightarrow>
                Continue (rewire (hang_leaf s1 n cur direction d) par cur n) n d
            | _ \<Rightarrow> Panic ErrInvalidTree))"
    unfolding push_down_def Let_def by simp
  from push_down_Continue [OF assms [unfolded e]]
  obtain direction where
    "s' = rewire (hang_leaf s1 n cur direction d) par cur n" and "n' = n"
    by blast
  with nn that show ?thesis by blast
qed

lemma push_down_within:
  assumes "within R s0 s" "fresh_in R s" "cur \<in> R" "par \<in> R"
    and "push_down s bits cur par d = Continue s' n' d'"
  shows "within R s0 s' \<and> n' \<in> R"
proof -
  from assms(5) obtain s1 n direction where
    nn: "newInteriorNode_st s (Some par) (of_nat d) (take d bits) = (s1, n)"
    and s': "s' = rewire (hang_leaf s1 n cur direction d) par cur n" and n': "n' = n"
    by (rule push_down_elim)
  from within_newInteriorNode [OF assms(1,2) _ nn] assms(4)
  have w1: "within R s0 s1" and n: "n \<in> R"
    by simp_all
  from rewire_within [OF hang_leaf_within [OF w1 n assms(3)] n assms(4)] n
  show ?thesis by (simp add: s' n')
qed

lemma insertStep_within:
  assumes "within R s0 s" "fresh_in R s" "toAdd \<in> R" "np \<in> R"
  shows "insertStep s bits toAdd np d = Break s' \<Longrightarrow> within R s0 s'"
    and "insertStep s bits toAdd np d = Continue s' n' d' \<Longrightarrow> within R s0 s' \<and> n' \<in> R"
proof -
  {
    assume b: "insertStep s bits toAdd np d = Break s'"
    show "within R s0 s'"
    proof (cases "deref s np")
      case None
      with b show ?thesis by (simp add: insertStep_def)
    next
      case (Some ob)
      show ?thesis
      proof (cases ob)
        case (InteriorObj p l lc rc lh rh)
        with b Some have "descend s bits toAdd np d = Break s'"
          by (auto simp add: insertStep_def split: option.splits object.splits)
        from descend_within(1) [OF assms(1,3,4) _ this] Some InteriorObj
        show ?thesis by simp
      next
        case (UserLeafObj p l k v i c)
        with b Some obtain tob where t: "deref s toAdd = Some tob"
          and r: "s' = replace_leaf s toAdd np"
          by (auto simp add: insertStep_def push_down_def Let_def
                   split: option.splits object.splits if_splits prod.splits)
        from replace_leaf_within [OF assms(1,3,4) _ t] Some UserLeafObj r
        show ?thesis by simp
      next
        case (EmptyObj p l i)
        with b Some show ?thesis
          by (simp add: insertStep_def split: option.splits object.splits)
      next
        case (TreeObj nc r h)
        with b Some show ?thesis
          by (simp add: insertStep_def split: option.splits object.splits)
      qed
    qed
  }
  {
    assume c: "insertStep s bits toAdd np d = Continue s' n' d'"
    show "within R s0 s' \<and> n' \<in> R"
    proof (cases "deref s np")
      case None
      with c show ?thesis by (simp add: insertStep_def)
    next
      case (Some ob)
      show ?thesis
      proof (cases ob)
        case (InteriorObj p l lc rc lh rh)
        with c Some have "descend s bits toAdd np d = Continue s' n' d'"
          by (auto simp add: insertStep_def split: option.splits object.splits)
        from descend_within(2) [OF assms(1,3,4) _ this] Some InteriorObj
        show ?thesis by simp
      next
        case (UserLeafObj p l k v i c)
        with c Some obtain par where p: "p = Some par"
          and r: "push_down s bits np par d = Continue s' n' d'"
          by (auto simp add: insertStep_def
                   split: option.splits object.splits if_splits)
        have "par \<in> R"
          using within_pointer [OF assms(1) Some assms(4), of par] UserLeafObj p by simp
        from push_down_within [OF assms(1,2,4) this r]
        show ?thesis .
      next
        case (EmptyObj p l i)
        with c Some show ?thesis
          by (simp add: insertStep_def split: option.splits object.splits)
      next
        case (TreeObj nc r h)
        with c Some show ?thesis
          by (simp add: insertStep_def split: option.splits object.splits)
      qed
    qed
  }
qed

lemma insertLoop_st_within:
  "insertLoop_st fuel s bits toAdd np d = Returns s' \<Longrightarrow>
   within R s0 s \<Longrightarrow> fresh_in R s \<Longrightarrow> toAdd \<in> R \<Longrightarrow> np \<in> R \<Longrightarrow> within R s0 s'"
proof (induction fuel arbitrary: s np d)
  case 0
  then show ?case by simp
next
  case (Suc fuel)
  show ?case
  proof (cases "insertStep s bits toAdd np d")
    case (Continue s1 n1 d1)
    from insertStep_within(2) [OF Suc.prems(2,3,4,5) Continue]
    have w: "within R s0 s1" and n: "n1 \<in> R" by simp_all
    have "closed s R" using Suc.prems(2) by (simp add: within_def)
    then have "within R s s" by (rule within_start)
    from insertStep_within(2) [OF this Suc.prems(3,4,5) Continue]
    have "frame R s s1" by (simp add: within_def)
    with Suc.prems(3) have f: "fresh_in R s1" by (rule fresh_in_frame)
    from Suc.prems(1) Continue have "insertLoop_st fuel s1 bits toAdd n1 d1 = Returns s'"
      by simp
    from Suc.IH [OF this w f Suc.prems(4) n] show ?thesis .
  next
    case (Break s1)
    with Suc.prems(1) have "s' = s1" by simp
    with insertStep_within(1) [OF Suc.prems(2,3,4,5) Break] show ?thesis by simp
  next
    case (Panic e)
    with Suc.prems(1) show ?thesis by simp
  qed
qed

subsection \<open>A sequence of calls of \<^verbatim>\<open>Set\<close>, and what is read outside its region\<close>

lemma Set_st_within:
  assumes "Set_st P fuel s m call = Returns s'"
    and "closed s R" "fresh_in R s" "m \<in> R"
  shows "within R s s'"
proof -
  obtain salt idx k v where call: "call = (salt, idx, k, v)"
    by (cases call) auto
  define ob where
    "ob = UserLeafObj None 0 k (elems (copyOfBs (Some v))) idx (NewCommit P salt [bytes_of_string k, v])"
  define s1 where "s1 = s @ [ob]"
  have p: "pointers ob = []" by (simp add: ob_def)
  from assms(2) have "closed s1 R"
    unfolding s1_def by (rule closed_alloc) (simp add: p)
  moreover have "frame R s s1" unfolding s1_def by (rule frame_alloc)
  ultimately have w: "within R s s1" by (simp add: within_def)
  from assms(3) \<open>frame R s s1\<close> have f: "fresh_in R s1" by (rule fresh_in_frame)
  from assms(3) have t: "length s \<in> R" by (simp add: fresh_in_def)
  from assms(1) obtain nc r h where d: "deref s1 m = Some (TreeObj nc (Some r) h)"
    and l: "insertLoop_st fuel s1 (ToBits idx) (length s) r 0 = Returns s'"
    by (auto simp add: Set_st_def call alloc_def Let_def s1_def ob_def
             split: option.splits object.splits)
  from within_pointer [OF w d assms(4), of r] have "r \<in> R" by simp
  from insertLoop_st_within [OF l w f t this] show ?thesis .
qed

lemma Sets_st_within:
  "Sets_st P fuel s m calls = Returns s' \<Longrightarrow> closed s R \<Longrightarrow> fresh_in R s \<Longrightarrow> m \<in> R \<Longrightarrow>
   within R s s'"
proof (induction calls arbitrary: s)
  case Nil
  then show ?case by (simp add: within_start)
next
  case (Cons call calls)
  from Cons.prems(1) obtain s1 where 1: "Set_st P fuel s m call = Returns s1"
    and 2: "Sets_st P fuel s1 m calls = Returns s'"
    by (auto split: outcome.splits)
  from Set_st_within [OF 1 Cons.prems(2,3,4)] have w: "within R s s1" .
  then have c: "closed s1 R" and f: "frame R s s1" by (simp_all add: within_def)
  from Cons.prems(3) f have "fresh_in R s1" by (rule fresh_in_frame)
  from Cons.IH [OF 2 c this Cons.prems(4)] have "within R s1 s'" .
  with f show ?case by (auto simp add: within_def intro: frame_trans)
qed

text \<open>What is read from a closed region depends only on the cells of the region.\<close>

lemma node_at_agree:
  "closed s Q \<Longrightarrow> (\<forall>a\<in>Q. deref s' a = deref s a) \<Longrightarrow> n \<in> Q \<Longrightarrow>
   node_at fuel s' n = node_at fuel s n"
proof (induction fuel arbitrary: n)
  case 0
  then show ?case by simp
next
  case (Suc fuel)
  from Suc.prems(2,3) have d: "deref s' n = deref s n" by simp
  show ?case
  proof (cases "deref s n")
    case None
    with d show ?thesis by simp
  next
    case (Some ob)
    then have n: "n < length s" and ob: "s ! n = ob"
      by (auto simp add: deref_def split: if_splits)
    from closed_cell [OF Suc.prems(1) n Suc.prems(3)] ob
    have sub: "set (pointers ob) \<subseteq> Q" by simp
    show ?thesis
    proof (cases ob)
      case (InteriorObj p l lc rc lh rh)
      show ?thesis
      proof (cases lc)
        case None
        with d Some InteriorObj show ?thesis by simp
      next
        case lc: (Some lc')
        show ?thesis
        proof (cases rc)
          case None
          with d Some InteriorObj lc show ?thesis by simp
        next
          case rc: (Some rc')
          from sub InteriorObj lc rc have "lc' \<in> Q" "rc' \<in> Q" by simp_all
          with Suc.IH [OF Suc.prems(1,2)]
          have "node_at fuel s' lc' = node_at fuel s lc'" "node_at fuel s' rc' = node_at fuel s rc'"
            by simp_all
          with d Some InteriorObj lc rc show ?thesis by simp
        qed
      qed
    qed (use d Some in simp_all)
  qed
qed

lemma tree_at_agree:
  assumes "closed s Q" "\<forall>a\<in>Q. deref s' a = deref s a" "m \<in> Q"
  shows "tree_at fuel s' m = tree_at fuel s m"
proof -
  from assms(2,3) have d: "deref s' m = deref s m" by simp
  show ?thesis
  proof (cases "deref s m")
    case None
    with d show ?thesis by (simp add: tree_at_def)
  next
    case (Some ob)
    then have n: "m < length s" and ob: "s ! m = ob"
      by (auto simp add: deref_def split: if_splits)
    from closed_cell [OF assms(1) n assms(3)] ob
    have sub: "set (pointers ob) \<subseteq> Q" by simp
    show ?thesis
    proof (cases ob)
      case (TreeObj nc r h)
      show ?thesis
      proof (cases r)
        case None
        with d Some TreeObj show ?thesis by (simp add: tree_at_def)
      next
        case r: (Some r')
        with sub TreeObj have "r' \<in> Q" by simp
        from node_at_agree [OF assms(1,2) this]
        show ?thesis using d Some TreeObj r by (simp add: tree_at_def)
      qed
    qed (use d Some in \<open>simp_all add: tree_at_def\<close>)
  qed
qed

lemma copied_alloc: "set (pointers ob) \<subseteq> set_option par \<Longrightarrow> copied s par (s @ [ob])"
  by (auto simp add: copied_def nth_append)

lemma copied_interior:
  assumes 1: "copied (s @ [InteriorObj par l None None lh rh]) (Some (length s)) s2"
    and 2: "copied (s2[length s := set_left (s2 ! length s) (Some (Suc (length s)))])
              (Some (length s)) s4"
  shows "copied s par (s4[length s := set_right (s4 ! length s) (Some (length s2))])"
proof -
  let ?N = "length s"
  let ?s3 = "s2[?N := set_left (s2 ! ?N) (Some (Suc ?N))]"
  let ?s' = "s4[?N := set_right (s4 ! ?N) (Some (length s2))]"
  from 1 have l2: "Suc ?N < length s2"
    and k2: "\<And>a. a < Suc ?N \<Longrightarrow> s2 ! a = (s @ [InteriorObj par l None None lh rh]) ! a"
    and p2: "\<And>a. Suc ?N \<le> a \<Longrightarrow> a < length s2 \<Longrightarrow>
               set (pointers (s2 ! a)) \<subseteq> {Suc ?N..<length s2} \<union> {?N}"
    by (simp_all add: copied_def)
  from 2 have l4: "length s2 < length s4"
    and k4: "\<And>a. a < length s2 \<Longrightarrow> s4 ! a = ?s3 ! a"
    and p4: "\<And>a. length s2 \<le> a \<Longrightarrow> a < length s4 \<Longrightarrow>
               set (pointers (s4 ! a)) \<subseteq> {length s2..<length s4} \<union> {?N}"
    by (simp_all add: copied_def)
  have n2: "s2 ! ?N = InteriorObj par l None None lh rh"
    using k2 [of ?N] by simp
  have n4: "s4 ! ?N = InteriorObj par l (Some (Suc ?N)) None lh rh"
    using k4 [of ?N] l2 n2 by simp
  have old: "?s' ! a = s ! a" if "a < ?N" for a
  proof -
    from that l2 l4 have "?s' ! a = s4 ! a" by simp
    also from that l2 have "\<dots> = ?s3 ! a" by (simp add: k4)
    also from that have "\<dots> = s2 ! a" by simp
    also from that have "\<dots> = s ! a" by (simp add: k2 nth_append)
    finally show ?thesis .
  qed
  have new: "set (pointers (?s' ! a)) \<subseteq> {?N..<length ?s'} \<union> set_option par"
    if a: "?N \<le> a" "a < length ?s'" for a
  proof -
    consider "a = ?N" | "Suc ?N \<le> a" "a < length s2" | "length s2 \<le> a" "a < length s4"
      using a by fastforce
    then show ?thesis
    proof cases
      case 1
      with l2 l4 n4 show ?thesis by auto
    next
      case 2
      then have "?s' ! a = s4 ! a" by simp
      also from 2 have "\<dots> = ?s3 ! a" by (simp add: k4)
      also from 2 have "\<dots> = s2 ! a" by simp
      finally have e: "?s' ! a = s2 ! a" .
      from p2 [OF 2] l2 have "\<forall>x\<in>set (pointers (s2 ! a)). ?N \<le> x \<and> x < length s2"
        by fastforce
      with l4 show ?thesis unfolding e by fastforce
    next
      case 3
      with l2 have e: "?s' ! a = s4 ! a" by simp
      from p4 [OF 3] l2 l4 have "\<forall>x\<in>set (pointers (s4 ! a)). ?N \<le> x \<and> x < length s4"
        by fastforce
      then show ?thesis unfolding e by fastforce
    qed
  qed
  from l2 l4 old new show ?thesis
    unfolding copied_def by auto
qed

lemma clone_st_copied:
  "clone_st fuel s n par = Returns (s', n') \<Longrightarrow> n' = length s \<and> copied s par s'"
proof (induction fuel arbitrary: s n par s' n')
  case 0
  then show ?case by simp
next
  case (Suc fuel)
  show ?case
  proof (cases "deref s n")
    case None
    with Suc.prems show ?thesis by simp
  next
    case (Some ob)
    show ?thesis
    proof (cases ob)
      case (InteriorObj p l lc rc lh rh)
      let ?s1 = "s @ [InteriorObj par l None None (copyOfBs lh) (copyOfBs rh)]"
      from Suc.prems Some InteriorObj obtain lc' rc' where c: "lc = Some lc'" "rc = Some rc'"
        by (cases lc; cases rc; simp add: alloc_def)
      from Suc.prems Some InteriorObj c obtain s2 l' where
        c1: "clone_st fuel ?s1 lc' (Some (length s)) = Returns (s2, l')"
        by (cases "clone_st fuel ?s1 lc' (Some (length s))") (auto simp add: alloc_def)
      from Suc.IH [OF c1] have l': "l' = Suc (length s)"
        and k1: "copied ?s1 (Some (length s)) s2" by simp_all
      let ?s3 = "s2[length s := set_left (s2 ! length s) (Some (Suc (length s)))]"
      from Suc.prems Some InteriorObj c c1 l' obtain s4 r' where
        c2: "clone_st fuel ?s3 rc' (Some (length s)) = Returns (s4, r')"
        by (cases "clone_st fuel ?s3 rc' (Some (length s))") (auto simp add: alloc_def)
      from Suc.IH [OF c2] have r': "r' = length s2"
        and k2: "copied ?s3 (Some (length s)) s4" by simp_all
      from Suc.prems Some InteriorObj c c1 l' c2 r'
      have "s' = s4[length s := set_right (s4 ! length s) (Some (length s2))]" "n' = length s"
        by (auto simp add: alloc_def)
      with copied_interior [OF k1 k2] show ?thesis by simp
    next
      case (UserLeafObj p l k v i c)
      with Suc.prems Some show ?thesis
        by (cases par) (auto simp add: alloc_def intro!: copied_alloc)
    next
      case (EmptyObj p l i)
      with Suc.prems Some show ?thesis
        by (cases par) (auto simp add: alloc_def intro!: copied_alloc)
    next
      case (TreeObj nc r h)
      with Suc.prems Some show ?thesis by simp
    qed
  qed
qed

subsection \<open>The regions of the original and of the clone\<close>

lemma well_formed_cell:
  "well_formed s \<Longrightarrow> a < length s \<Longrightarrow> x \<in> set (pointers (s ! a)) \<Longrightarrow> x < length s"
  by (auto simp add: well_formed_def list_all_iff)

text \<open>
  A sequence of \<^verbatim>\<open>Set\<close> on a tree whose cells lie in a closed region \<open>R\<close> that owns all
  future allocations leaves what is read from a disjoint closed region \<open>Q\<close> as it was.
\<close>

lemma Sets_st_frame:
  assumes "Sets_st P fuel s m calls = Returns s'"
    and "closed s R" "fresh_in R s" "m \<in> R"
    and "closed s Q" "Q \<inter> R = {}" "x \<in> Q"
  shows "tree_at f s' x = tree_at f s x" and "\<forall>a\<in>Q. a < length s \<and> s' ! a = s ! a"
proof -
  from Sets_st_within [OF assms(1,2,3,4)] have fr: "frame R s s'"
    by (simp add: within_def)
  have "deref s' a = deref s a" if "a \<in> Q" for a
  proof -
    from that assms(6) have nr: "a \<notin> R" by auto
    with assms(3) have "a < length s" by (auto simp add: fresh_in_def not_le [symmetric])
    with fr nr show ?thesis by (auto simp add: frame_def deref_def)
  qed
  then have ag: "\<forall>a\<in>Q. deref s' a = deref s a" by simp
  from tree_at_agree [OF assms(5) ag assms(7)] show "tree_at f s' x = tree_at f s x" .
  show "\<forall>a\<in>Q. a < length s \<and> s' ! a = s ! a"
  proof
    fix a assume "a \<in> Q"
    with assms(6) have nr: "a \<notin> R" by auto
    with assms(3) have "a < length s" by (auto simp add: fresh_in_def not_le [symmetric])
    with fr nr show "a < length s \<and> s' ! a = s ! a" by (simp add: frame_def)
  qed
qed

lemma Clone_st_regions:
  assumes "well_formed s0" and "Clone_st fuel s0 m = Returns (s1, m')"
  shows "m < length s0" and "length s0 \<le> m'" and "m' < length s1"
    and "closed s1 {a. a < length s0}"
    and "closed s1 {a. length s0 \<le> a \<and> a < length s1}"
    and "closed s1 {a. length s0 \<le> a}"
    and "closed s1 {a. a < length s0 \<or> length s1 \<le> a}"
    and "\<forall>a<length s0. s1 ! a = s0 ! a"
proof -
  from assms(2) obtain nc r h where d: "deref s0 m = Some (TreeObj nc (Some r) h)"
    by (auto simp add: Clone_st_def split: option.splits object.splits)
  from assms(2) d obtain sc r' where c: "clone_st fuel s0 r None = Returns (sc, r')"
    by (cases "clone_st fuel s0 r None") (auto simp add: Clone_st_def)
  from assms(2) d c
  have s1: "s1 = sc @ [TreeObj (elems (copyOfBs (Some nc))) (Some r') (copyOfBs h)]"
    and m': "m' = length sc"
    by (auto simp add: Clone_st_def alloc_def)
  from clone_st_copied [OF c] have r': "r' = length s0" and k: "copied s0 None sc"
    by simp_all
  from k have l: "length s0 < length sc"
    and old: "\<And>a. a < length s0 \<Longrightarrow> sc ! a = s0 ! a"
    and new: "\<And>a. length s0 \<le> a \<Longrightarrow> a < length sc \<Longrightarrow>
                set (pointers (sc ! a)) \<subseteq> {length s0..<length sc}"
    by (simp_all add: copied_def)
  show "m < length s0" using d by (auto simp add: deref_def split: if_splits)
  show "length s0 \<le> m'" using m' l by simp
  show "m' < length s1" using m' s1 by simp
  show o: "\<forall>a<length s0. s1 ! a = s0 ! a" using l old by (simp add: s1 nth_append)
  have lo: "set (pointers (s1 ! a)) \<subseteq> {a. a < length s0}" if "a < length s0" for a
    using well_formed_cell [OF assms(1) that] o that by auto
  have hi: "set (pointers (s1 ! a)) \<subseteq> {a. length s0 \<le> a \<and> a < length s1}"
    if "length s0 \<le> a" "a < length s1" for a
  proof (cases "a < length sc")
    case True
    with new [OF that(1) True] show ?thesis by (auto simp add: s1 nth_append)
  next
    case False
    with that(2) have "a = length sc" by (simp add: s1)
    with l show ?thesis by (simp add: s1 r')
  qed
  show "closed s1 {a. a < length s0}" using lo by (simp add: closed_def)
  show "closed s1 {a. length s0 \<le> a \<and> a < length s1}" using hi by (simp add: closed_def)
  show "closed s1 {a. length s0 \<le> a}" using hi by (fastforce simp add: closed_def)
  show "closed s1 {a. a < length s0 \<or> length s1 \<le> a}"
    unfolding closed_def
  proof (intro allI impI)
    fix a assume "a < length s1" "a \<in> {a. a < length s0 \<or> length s1 \<le> a}"
    then have "a < length s0" by simp
    from lo [OF this] show "set (pointers (s1 ! a)) \<subseteq> {a. a < length s0 \<or> length s1 \<le> a}"
      by auto
  qed
qed

subsection \<open>Well-formed stores\<close>

text \<open>
  The store stays well formed under every operation, so every store that
  \<^verbatim>\<open>NewMerkleTree\<close>, \<^verbatim>\<open>Set\<close> and \<^verbatim>\<open>Clone\<close> build from the empty store is well formed.
\<close>

lemma well_formed_iff:
  "well_formed s \<longleftrightarrow> (\<forall>a<length s. \<forall>x\<in>set (pointers (s ! a)). x < length s)"
proof
  assume "well_formed s"
  then show "\<forall>a<length s. \<forall>x\<in>set (pointers (s ! a)). x < length s"
    using well_formed_cell by blast
next
  assume r: "\<forall>a<length s. \<forall>x\<in>set (pointers (s ! a)). x < length s"
  show "well_formed s"
    unfolding well_formed_def list_all_iff
  proof (intro ballI)
    fix ob x assume "ob \<in> set s" "x \<in> set (pointers ob)"
    then obtain a where "a < length s" "s ! a = ob" by (auto simp add: in_set_conv_nth)
    with r \<open>x \<in> set (pointers ob)\<close> show "x < length s" by auto
  qed
qed

lemma well_formed_closed: "well_formed s \<longleftrightarrow> closed s {a. a < length s}"
  by (auto simp add: well_formed_iff closed_def)

lemma well_formed_within:
  "well_formed s \<Longrightarrow> within {a. a < length s} s s"
  by (simp add: well_formed_closed within_start)

lemma within_well_formed:
  "within {a. a < length s} s0 s' \<Longrightarrow> length s' = length s \<Longrightarrow> well_formed s'"
  by (simp add: well_formed_closed within_def)

lemma length_steps [simp]:
  "length (replace_leaf s t c) = length s"
  "length (attach s c t dir d) = length s"
  "length (hang_leaf s n c dir d) = length s"
  "length (rewire s p c n) = length s"
  by (simp_all add: replace_leaf_def attach_def hang_leaf_def rewire_def Let_def)

lemma descend_length:
  "descend s bits t c d = Break s' \<Longrightarrow> length s' = length s"
  "descend s bits t c d = Continue s' n' d' \<Longrightarrow> length s' = length s"
  by (auto simp add: descend_def Let_def split: if_splits option.splits object.splits)

lemma well_formed_newInteriorNode:
  assumes "well_formed s" "set_option par \<subseteq> {a. a < length s}"
    and "newInteriorNode_st s par lv bits = (s', n)"
  shows "well_formed s'" and "n < length s'" and "length s < length s'"
    and "\<forall>a<length s. s' ! a = s ! a"
proof -
  from assms(3) have s': "s' = s @ [EmptyObj (Some (length s + 2)) (lv + 1) (ToBytes (bits @ [False])),
           EmptyObj (Some (length s + 2)) (lv + 1) (ToBytes (bits @ [True])),
           InteriorObj par lv (Some (length s)) (Some (length s + 1)) None None]"
    and n: "n = length s + 2"
    by (auto simp add: newInteriorNode_st_eq)
  show "n < length s'" "length s < length s'" by (simp_all add: s' n)
  show "\<forall>a<length s. s' ! a = s ! a" by (simp add: s' nth_append)
  show "well_formed s'"
    unfolding well_formed_iff
  proof (intro allI impI ballI)
    fix a x assume a: "a < length s'" and x: "x \<in> set (pointers (s' ! a))"
    consider "a < length s" | "a = length s" | "a = length s + 1" | "a = length s + 2"
      using a by (fastforce simp add: s')
    then show "x < length s'"
    proof cases
      case 1
      with x have "x \<in> set (pointers (s ! a))" by (simp add: s' nth_append)
      with assms(1) 1 have "x < length s" by (auto simp add: well_formed_iff)
      then show ?thesis by (simp add: s')
    next
      case 2
      with x show ?thesis by (simp add: s' nth_append)
    next
      case 3
      with x show ?thesis by (simp add: s' nth_append)
    next
      case 4
      with x assms(2) show ?thesis by (auto simp add: s' nth_append split: option.splits)
    qed
  qed
qed

lemma well_formed_push_down:
  assumes "well_formed s" "cur < length s" "par < length s"
    and "push_down s bits cur par d = Continue s' n' d'"
  shows "well_formed s' \<and> n' < length s' \<and> length s \<le> length s'"
proof -
  from assms(4) obtain s1 n direction where
    nn: "newInteriorNode_st s (Some par) (of_nat d) (take d bits) = (s1, n)"
    and s': "s' = rewire (hang_leaf s1 n cur direction d) par cur n" and n': "n' = n"
    by (rule push_down_elim)
  from assms(3) have "set_option (Some par) \<subseteq> {a. a < length s}" by simp
  from well_formed_newInteriorNode [OF assms(1) this nn]
  have w1: "well_formed s1" and n: "n < length s1" and l: "length s < length s1" by simp_all
  let ?R = "{a. a < length s1}"
  from n l assms(2,3) have r: "n \<in> ?R" "cur \<in> ?R" "par \<in> ?R" by simp_all
  from rewire_within [OF hang_leaf_within [OF well_formed_within [OF w1] r(1,2)] r(1,3)]
  have "within ?R s1 s'" unfolding s' .
  then have "well_formed s'" by (rule within_well_formed) (simp add: s')
  with n l show ?thesis by (simp add: s' n')
qed

lemma well_formed_insertStep:
  assumes "well_formed s" "toAdd < length s" "np < length s"
  shows "insertStep s bits toAdd np d = Break s' \<Longrightarrow> well_formed s' \<and> length s \<le> length s'"
    and "insertStep s bits toAdd np d = Continue s' n' d' \<Longrightarrow>
           well_formed s' \<and> n' < length s' \<and> length s \<le> length s'"
proof -
  let ?R = "{a. a < length s}"
  note w = well_formed_within [OF assms(1)]
  from assms(2,3) have r: "toAdd \<in> ?R" "np \<in> ?R" by simp_all
  from assms(3) have Some: "deref s np = Some (s ! np)" by (simp add: deref_def)
  from assms(2) have t: "deref s toAdd = Some (s ! toAdd)" by (simp add: deref_def)
  {
    assume b: "insertStep s bits toAdd np d = Break s'"
    show "well_formed s' \<and> length s \<le> length s'"
    proof (cases "s ! np")
      case (InteriorObj p l lc rc lh rh)
      with b Some have e: "descend s bits toAdd np d = Break s'"
        by (auto simp add: insertStep_def split: option.splits object.splits)
      from descend_within(1) [OF w r _ e] Some InteriorObj have "within ?R s s'" by simp
      with descend_length(1) [OF e] show ?thesis by (simp add: within_well_formed)
    next
      case (UserLeafObj p l k v i c)
      with b Some have e: "s' = replace_leaf s toAdd np"
        by (auto simp add: insertStep_def push_down_def Let_def
                 split: option.splits object.splits if_splits prod.splits)
      from replace_leaf_within [OF w r _ t] Some UserLeafObj have "within ?R s s'"
        by (simp add: e)
      then show ?thesis by (simp add: within_well_formed e)
    next
      case (EmptyObj p l i)
      with b Some show ?thesis
        by (simp add: insertStep_def split: option.splits object.splits)
    next
      case (TreeObj nc r h)
      with b Some show ?thesis
        by (simp add: insertStep_def split: option.splits object.splits)
    qed
  }
  {
    assume c: "insertStep s bits toAdd np d = Continue s' n' d'"
    show "well_formed s' \<and> n' < length s' \<and> length s \<le> length s'"
    proof (cases "s ! np")
      case (InteriorObj p l lc rc lh rh)
      with c Some have e: "descend s bits toAdd np d = Continue s' n' d'"
        by (auto simp add: insertStep_def split: option.splits object.splits)
      from descend_within(2) [OF w r _ e] Some InteriorObj
      have "within ?R s s'" and "n' < length s" by simp_all
      with descend_length(2) [OF e] show ?thesis by (simp add: within_well_formed)
    next
      case (UserLeafObj p l k v i c)
      with c Some obtain par where p: "p = Some par"
        and e: "push_down s bits np par d = Continue s' n' d'"
        by (auto simp add: insertStep_def
                 split: option.splits object.splits if_splits)
      have "par < length s"
        using well_formed_cell [OF assms(1,3), of par] UserLeafObj p by simp
      from well_formed_push_down [OF assms(1,3) this e]
      show ?thesis .
    next
      case (EmptyObj p l i)
      with c Some show ?thesis
        by (simp add: insertStep_def split: option.splits object.splits)
    next
      case (TreeObj nc r h)
      with c Some show ?thesis
        by (simp add: insertStep_def split: option.splits object.splits)
    qed
  }
qed

lemma well_formed_insertLoop_st:
  "insertLoop_st fuel s bits toAdd np d = Returns s' \<Longrightarrow>
   well_formed s \<Longrightarrow> toAdd < length s \<Longrightarrow> np < length s \<Longrightarrow> well_formed s'"
proof (induction fuel arbitrary: s np d)
  case 0
  then show ?case by simp
next
  case (Suc fuel)
  show ?case
  proof (cases "insertStep s bits toAdd np d")
    case (Continue s1 n1 d1)
    from well_formed_insertStep(2) [OF Suc.prems(2,3,4) Continue]
    have w: "well_formed s1" and n: "n1 < length s1" and l: "length s \<le> length s1"
      by simp_all
    from Suc.prems(1) Continue have "insertLoop_st fuel s1 bits toAdd n1 d1 = Returns s'"
      by simp
    from Suc.IH [OF this w _ n] Suc.prems(3) l show ?thesis by simp
  next
    case (Break s1)
    with Suc.prems(1) have "s' = s1" by simp
    with well_formed_insertStep(1) [OF Suc.prems(2,3,4) Break] show ?thesis by simp
  next
    case (Panic e)
    with Suc.prems(1) show ?thesis by simp
  qed
qed

lemma well_formed_alloc:
  "well_formed s \<Longrightarrow> \<forall>x\<in>set (pointers ob). x < length s \<Longrightarrow> well_formed (s @ [ob])"
  by (auto simp add: well_formed_iff nth_append less_Suc_eq)

lemma well_formed_NewMerkleTree_st:
  assumes "well_formed s" and "NewMerkleTree_st rnd s = (s', m)"
  shows "well_formed s'"
proof -
  obtain s1 r where nn: "newInteriorNode_st s None 0 [] = (s1, r)"
    by (cases "newInteriorNode_st s None 0 []")
  from well_formed_newInteriorNode [OF assms(1) _ nn]
  have "well_formed s1" and "r < length s1" by simp_all
  with assms(2) nn show ?thesis
    by (auto simp add: NewMerkleTree_st_def alloc_def intro!: well_formed_alloc)
qed

lemma well_formed_Set_st:
  assumes "well_formed s" and "Set_st P fuel s m call = Returns s'"
  shows "well_formed s'"
proof -
  obtain salt idx k v where call: "call = (salt, idx, k, v)"
    by (cases call) auto
  define ob where
    "ob = UserLeafObj None 0 k (elems (copyOfBs (Some v))) idx (NewCommit P salt [bytes_of_string k, v])"
  define s1 where "s1 = s @ [ob]"
  have w: "well_formed s1"
    unfolding s1_def using assms(1) by (rule well_formed_alloc) (simp add: ob_def)
  from assms(2) obtain nc r h where d: "deref s1 m = Some (TreeObj nc (Some r) h)"
    and l: "insertLoop_st fuel s1 (ToBits idx) (length s) r 0 = Returns s'"
    by (auto simp add: Set_st_def call alloc_def Let_def s1_def ob_def
             split: option.splits object.splits)
  from d have "m < length s1" "s1 ! m = TreeObj nc (Some r) h"
    by (auto simp add: deref_def split: if_splits)
  with well_formed_cell [OF w, of m r] have "r < length s1" by simp
  from well_formed_insertLoop_st [OF l w _ this] show ?thesis by (simp add: s1_def)
qed

lemma well_formed_Sets_st:
  "Sets_st P fuel s m calls = Returns s' \<Longrightarrow> well_formed s \<Longrightarrow> well_formed s'"
proof (induction calls arbitrary: s)
  case Nil
  then show ?case by simp
next
  case (Cons call calls)
  from Cons.prems(1) obtain s1 where 1: "Set_st P fuel s m call = Returns s1"
    and 2: "Sets_st P fuel s1 m calls = Returns s'"
    by (auto split: outcome.splits)
  from Cons.IH [OF 2 well_formed_Set_st [OF Cons.prems(2) 1]] show ?case .
qed

lemma well_formed_Clone_st:
  assumes "well_formed s0" and "Clone_st fuel s0 m = Returns (s1, m')"
  shows "well_formed s1"
proof -
  note r = Clone_st_regions [OF assms]
  show ?thesis
    unfolding well_formed_iff
  proof (intro allI impI ballI)
    fix a x assume a: "a < length s1" and x: "x \<in> set (pointers (s1 ! a))"
    show "x < length s1"
    proof (cases "a < length s0")
      case True
      then have "a \<in> {a. a < length s0}" by simp
      from closed_cell [OF r(4) a this] x r(2,3) show ?thesis by auto
    next
      case False
      with a have "a \<in> {a. length s0 \<le> a \<and> a < length s1}" by simp
      from closed_cell [OF r(5) a this] x show ?thesis by auto
    qed
  qed
qed

subsection \<open>The clone in the store and the clone of the tree\<close>

text \<open>
  What is read from a node depends only on the objects reached through the children.
\<close>

lemma node_at_same:
  "node_at f s n = Some t \<Longrightarrow> n \<in> Q \<Longrightarrow>
   (\<forall>a\<in>Q. a < length s \<longrightarrow> set (kids (s ! a)) \<subseteq> Q \<and> a < length s' \<and> s' ! a = s ! a) \<Longrightarrow>
   node_at f s' n = Some t"
proof (induction f arbitrary: n t)
  case 0
  then show ?case by simp
next
  case (Suc f)
  from Suc.prems(1) obtain ob where d: "deref s n = Some ob"
    by (cases "deref s n") simp_all
  then have n: "n < length s" and ob: "s ! n = ob"
    by (auto simp add: deref_def split: if_splits)
  with Suc.prems(2,3) have k: "set (kids ob) \<subseteq> Q" and d': "deref s' n = Some ob"
    by (auto simp add: deref_def)
  show ?case
  proof (cases ob)
    case (InteriorObj p l lc rc lh rh)
    from Suc.prems(1) d InteriorObj obtain lc' rc' where c: "lc = Some lc'" "rc = Some rc'"
      by (cases lc; cases rc; simp)
    from Suc.prems(1) d InteriorObj c obtain lt rt where
      lt: "node_at f s lc' = Some lt" and rt: "node_at f s rc' = Some rt"
      and t: "t = interiorNode l lt rt lh rh"
      by (cases "node_at f s lc'"; cases "node_at f s rc'"; simp)
    from k InteriorObj c have "lc' \<in> Q" "rc' \<in> Q" by simp_all
    with Suc.IH [OF lt _ Suc.prems(3)] Suc.IH [OF rt _ Suc.prems(3)]
    have "node_at f s' lc' = Some lt" "node_at f s' rc' = Some rt" by simp_all
    with d' InteriorObj c t show ?thesis by simp
  qed (use Suc.prems(1) d d' in simp_all)
qed

lemma node_at_ext:
  assumes "node_at f s n = Some t" "length s \<le> length s'" "\<forall>a<length s. s' ! a = s ! a"
  shows "node_at f s' n = Some t"
  using assms(2,3) by (intro node_at_same [OF assms(1), of UNIV]) auto

text \<open>
  \<^verbatim>\<open>clone\<close> on a pointer from which a node is read returns, and what is read from its
  result is the \<open>clone\<close> of that node.
\<close>

lemma clone_st_refines:
  "node_at f s n = Some t \<Longrightarrow>
   \<exists>s'. clone_st f s n par = Returns (s', length s) \<and> copied s par s' \<and>
        (\<forall>a. length s \<le> a \<and> a < length s' \<longrightarrow>
           set (kids (s' ! a)) \<subseteq> {length s..<length s'}) \<and>
        node_at f s' (length s) = Some (clone t)"
proof (induction f arbitrary: s n par t)
  case 0
  then show ?case by simp
next
  case (Suc f)
  from Suc.prems obtain ob where d: "deref s n = Some ob"
    by (cases "deref s n") simp_all
  show ?case
  proof (cases ob)
    case (InteriorObj p l lc rc lh rh)
    let ?N = "length s"
    let ?s1 = "s @ [InteriorObj par l None None (copyOfBs lh) (copyOfBs rh)]"
    from Suc.prems d InteriorObj obtain lc' rc' where c: "lc = Some lc'" "rc = Some rc'"
      by (cases lc; cases rc; simp)
    from Suc.prems d InteriorObj c obtain lt rt where
      lt: "node_at f s lc' = Some lt" and rt: "node_at f s rc' = Some rt"
      and t: "t = interiorNode l lt rt lh rh"
      by (cases "node_at f s lc'"; cases "node_at f s rc'"; simp)
    have e1: "node_at f ?s1 lc' = Some lt"
      by (rule node_at_ext [OF lt]) (simp_all add: nth_append)
    from Suc.IH [OF e1, of "Some ?N"] obtain s2 where
      c1: "clone_st f ?s1 lc' (Some ?N) = Returns (s2, Suc ?N)"
      and k1: "copied ?s1 (Some ?N) s2"
      and d1: "\<forall>a. Suc ?N \<le> a \<and> a < length s2 \<longrightarrow> set (kids (s2 ! a)) \<subseteq> {Suc ?N..<length s2}"
      and r1: "node_at f s2 (Suc ?N) = Some (clone lt)"
      by auto
    let ?s3 = "s2[?N := set_left (s2 ! ?N) (Some (Suc ?N))]"
    from k1 have l2: "Suc ?N < length s2"
      and k2: "\<And>a. a < Suc ?N \<Longrightarrow> s2 ! a = ?s1 ! a"
      by (simp_all add: copied_def)
    have e2: "node_at f ?s3 rc' = Some rt"
    proof (rule node_at_ext [OF rt])
      show "length s \<le> length ?s3" using l2 by simp
      show "\<forall>a<length s. ?s3 ! a = s ! a" by (simp add: k2 nth_append)
    qed
    from Suc.IH [OF e2, of "Some ?N"] obtain s4 where
      c2: "clone_st f ?s3 rc' (Some ?N) = Returns (s4, length s2)"
      and k3: "copied ?s3 (Some ?N) s4"
      and d2: "\<forall>a. length s2 \<le> a \<and> a < length s4 \<longrightarrow>
                 set (kids (s4 ! a)) \<subseteq> {length s2..<length s4}"
      and r2: "node_at f s4 (length s2) = Some (clone rt)"
      by auto
    let ?s5 = "s4[?N := set_right (s4 ! ?N) (Some (length s2))]"
    from k3 have l4: "length s2 < length s4"
      and k4: "\<And>a. a < length s2 \<Longrightarrow> s4 ! a = ?s3 ! a"
      by (simp_all add: copied_def)
    have n2: "s2 ! ?N = InteriorObj par l None None (copyOfBs lh) (copyOfBs rh)"
      using k2 [of ?N] by simp
    have n4: "s4 ! ?N = InteriorObj par l (Some (Suc ?N)) None (copyOfBs lh) (copyOfBs rh)"
      using k4 [of ?N] l2 n2 by simp
    have n5: "?s5 ! ?N =
        InteriorObj par l (Some (Suc ?N)) (Some (length s2)) (copyOfBs lh) (copyOfBs rh)"
      using l2 l4 n4 by simp
    have A: "?s5 ! a = s2 ! a" if "Suc ?N \<le> a" "a < length s2" for a
    proof -
      from that have "?s5 ! a = s4 ! a" by simp
      also from that have "\<dots> = ?s3 ! a" by (simp add: k4)
      also from that have "\<dots> = s2 ! a" by simp
      finally show ?thesis .
    qed
    have B: "?s5 ! a = s4 ! a" if "length s2 \<le> a" for a
      using that l2 by simp
    have ret: "clone_st (Suc f) s n par = Returns (?s5, ?N)"
      using d InteriorObj c c1 c2 by (simp add: alloc_def)
    have cp: "copied s par ?s5"
      using k1 k3 by (rule copied_interior)
    have kd: "set (kids (?s5 ! a)) \<subseteq> {?N..<length ?s5}"
      if a: "?N \<le> a" "a < length ?s5" for a
    proof -
      consider "a = ?N" | "Suc ?N \<le> a" "a < length s2" | "length s2 \<le> a" "a < length s4"
        using a by fastforce
      then show ?thesis
      proof cases
        case 1
        with l2 l4 n5 show ?thesis by auto
      next
        case 2
        from d1 2 have "\<forall>x\<in>set (kids (s2 ! a)). ?N \<le> x \<and> x < length s2"
          by fastforce
        with l4 show ?thesis unfolding A [OF 2] by fastforce
      next
        case 3
        from d2 3 l2 have "\<forall>x\<in>set (kids (s4 ! a)). ?N \<le> x \<and> x < length s4"
          by fastforce
        then show ?thesis unfolding B [OF 3(1)] by fastforce
      qed
    qed
    have q1: "node_at f ?s5 (Suc ?N) = Some (clone lt)"
    proof (rule node_at_same [OF r1, of "{Suc ?N..<length s2}"])
      show "Suc ?N \<in> {Suc ?N..<length s2}" using l2 by simp
      show "\<forall>a\<in>{Suc ?N..<length s2}. a < length s2 \<longrightarrow>
              set (kids (s2 ! a)) \<subseteq> {Suc ?N..<length s2} \<and> a < length ?s5 \<and> ?s5 ! a = s2 ! a"
        using d1 A l4 by auto
    qed
    have q2: "node_at f ?s5 (length s2) = Some (clone rt)"
    proof (rule node_at_same [OF r2, of "{length s2..<length s4}"])
      show "length s2 \<in> {length s2..<length s4}" using l4 by simp
      show "\<forall>a\<in>{length s2..<length s4}. a < length s4 \<longrightarrow>
              set (kids (s4 ! a)) \<subseteq> {length s2..<length s4} \<and> a < length ?s5 \<and> ?s5 ! a = s4 ! a"
        using d2 B by auto
    qed
    have "node_at (Suc f) ?s5 ?N = Some (clone t)"
      using l2 l4 n5 q1 q2 by (simp add: deref_def t)
    with ret cp kd show ?thesis by blast
  next
    case (UserLeafObj p l k v i c)
    with Suc.prems d show ?thesis
      by (cases par) (auto simp add: alloc_def deref_def nth_append intro!: copied_alloc)
  next
    case (EmptyObj p l i)
    with Suc.prems d show ?thesis
      by (cases par) (auto simp add: alloc_def deref_def nth_append intro!: copied_alloc)
  next
    case (TreeObj nc r h)
    with Suc.prems d show ?thesis by simp
  qed
qed

text \<open>
  \<^verbatim>\<open>Clone\<close> on a pointer from which a tree is read returns, and what is read from the
  clone is the \<open>Clone\<close> of that tree.
\<close>

lemma Clone_st_refines:
  assumes "tree_at f s m = Some T"
  shows "\<exists>s1 m'. Clone_st f s m = Returns (s1, m') \<and> tree_at f s1 m' = Some (Clone T)"
proof -
  from assms obtain nc r h where d: "deref s m = Some (TreeObj nc (Some r) h)"
    by (auto simp add: tree_at_def split: option.splits object.splits)
  with assms obtain t where n: "node_at f s r = Some t"
    and T: "T = \<lparr> nonce = nc, root = t, m_hash = h \<rparr>"
    by (auto simp add: tree_at_def split: option.splits)
  from clone_st_refines [OF n, of None] obtain sc where
    c: "clone_st f s r None = Returns (sc, length s)"
    and k: "copied s None sc"
    and kd: "\<forall>a. length s \<le> a \<and> a < length sc \<longrightarrow> set (kids (sc ! a)) \<subseteq> {length s..<length sc}"
    and q: "node_at f sc (length s) = Some (clone t)"
    by blast
  let ?s1 = "sc @ [TreeObj (elems (copyOfBs (Some nc))) (Some (length s)) (copyOfBs h)]"
  from d c have ret: "Clone_st f s m = Returns (?s1, length sc)"
    by (simp add: Clone_st_def alloc_def)
  have "node_at f ?s1 (length s) = Some (clone t)"
    by (rule node_at_ext [OF q]) (simp_all add: nth_append)
  then have "tree_at f ?s1 (length sc) = Some (Clone T)"
    by (simp add: tree_at_def deref_def Clone_def T)
  with ret show ?thesis by blast
qed

text \<open>
  Claim C9. Let a tree \<open>m\<close> in a well-formed store be cloned, giving the store \<open>s1\<close> and
  the clone \<open>m'\<close>. The clone is a new object, the objects that existed before are as they
  were, and the original reads as before. After any sequence of calls of \<^verbatim>\<open>Set\<close> on the
  clone, every object that existed before the clone is unchanged and the original reads
  the same tree as before the calls: the same nonce, the same root hash, and the same
  fields of every node reachable from its root, the leaves with their value, index,
  level and commitment among them. After any sequence of calls of \<^verbatim>\<open>Set\<close> on the original,
  every object the clone allocated is unchanged and the clone reads the same tree as
  before the calls.
\<close>

theorem Clone_isolation:
  assumes "well_formed s0" and "Clone_st fuel s0 m = Returns (s1, m')"
  shows "m < length s0 \<and> length s0 \<le> m' \<and> m' < length s1 \<and>
         (\<forall>a<length s0. s1 ! a = s0 ! a) \<and> tree_at f s1 m = tree_at f s0 m \<and>
         (Sets_st P fuel' s1 m' calls = Returns s2 \<longrightarrow>
            (\<forall>a<length s0. s2 ! a = s1 ! a) \<and> tree_at f s2 m = tree_at f s1 m) \<and>
         (Sets_st P fuel' s1 m calls = Returns s2 \<longrightarrow>
            (\<forall>a. length s0 \<le> a \<and> a < length s1 \<longrightarrow> s2 ! a = s1 ! a) \<and>
            tree_at f s2 m' = tree_at f s1 m')"
proof -
  note r = Clone_st_regions [OF assms]
  have c0: "closed s0 {a. a < length s0}"
    using well_formed_cell [OF assms(1)] by (auto simp add: closed_def)
  from r(1,2,3,8) have "\<forall>a\<in>{a. a < length s0}. deref s1 a = deref s0 a"
    by (auto simp add: deref_def)
  from tree_at_agree [OF c0 this] r(1) have t0: "tree_at f s1 m = tree_at f s0 m" by simp
  have A: "(\<forall>a<length s0. s2 ! a = s1 ! a) \<and> tree_at f s2 m = tree_at f s1 m"
    if a: "Sets_st P fuel' s1 m' calls = Returns s2"
  proof -
    have 1: "fresh_in {a. length s0 \<le> a} s1" using r(2,3) by (simp add: fresh_in_def)
    have 2: "m' \<in> {a. length s0 \<le> a}" using r(2) by simp
    have 3: "{a. a < length s0} \<inter> {a. length s0 \<le> a} = {}" by auto
    have 4: "m \<in> {a. a < length s0}" using r(1) by simp
    from Sets_st_frame [OF a r(6) 1 2 r(4) 3 4] show ?thesis by simp
  qed
  have B: "(\<forall>a. length s0 \<le> a \<and> a < length s1 \<longrightarrow> s2 ! a = s1 ! a) \<and>
           tree_at f s2 m' = tree_at f s1 m'"
    if a: "Sets_st P fuel' s1 m calls = Returns s2"
  proof -
    have 1: "fresh_in {a. a < length s0 \<or> length s1 \<le> a} s1" by (simp add: fresh_in_def)
    have 2: "m \<in> {a. a < length s0 \<or> length s1 \<le> a}" using r(1) by simp
    have 3: "{a. length s0 \<le> a \<and> a < length s1} \<inter> {a. a < length s0 \<or> length s1 \<le> a} = {}"
      by auto
    have 4: "m' \<in> {a. length s0 \<le> a \<and> a < length s1}" using r(2,3) by simp
    from Sets_st_frame [OF a r(7) 1 2 r(5) 3 4] show ?thesis by simp
  qed
  from r(1,2,3,8) t0 A B show ?thesis by blast
qed

text \<open>
  On the small store: the calls return; the tree they are made on becomes what the same
  calls of \<open>Set\<close> make of it in the previous sections, which is another tree than before;
  and the other tree reads as before (the original is \<open>toy_set_once\<close>, the clone is its
  \<open>Clone\<close>).
\<close>

lemma toy_stores:
  "well_formed (fst toy_store)"
  "Clone_st 9 (fst toy_store) (snd toy_store) = Returns (fst toy_cloned, snd toy_cloned)"
  "Sets_st toy 9 (fst toy_cloned) (snd toy_cloned) toy_calls = Returns (toy_sets_on (snd toy_cloned))"
  "Sets_st toy 9 (fst toy_cloned) (snd toy_store) toy_calls = Returns (toy_sets_on (snd toy_store))"
  "tree_at 9 (fst toy_store) (snd toy_store) = Some toy_set_once"
  "tree_at 9 (fst toy_cloned) (snd toy_cloned) = Some (Clone toy_set_once)"
  "map_option Inr (tree_at 9 (toy_sets_on (snd toy_cloned)) (snd toy_cloned)) =
     Some (Sets toy (Clone toy_set_once) toy_calls)"
  "map_option Inr (tree_at 9 (toy_sets_on (snd toy_store)) (snd toy_store)) =
     Some (Sets toy toy_set_once toy_calls)"
  "Sets toy (Clone toy_set_once) toy_calls \<noteq> Inr (Clone toy_set_once)"
  "Sets toy toy_set_once toy_calls \<noteq> Inr toy_set_once"
  by code_simp+

theorem Clone_isolation_witness:
  "well_formed (fst toy_store) \<and>
   Clone_st 9 (fst toy_store) (snd toy_store) = Returns (fst toy_cloned, snd toy_cloned) \<and>
   Sets_st toy 9 (fst toy_cloned) (snd toy_cloned) toy_calls =
     Returns (toy_sets_on (snd toy_cloned)) \<and>
   map_option Inr (tree_at 9 (toy_sets_on (snd toy_cloned)) (snd toy_cloned)) =
     Some (Sets toy (Clone toy_set_once) toy_calls) \<and>
   Sets toy (Clone toy_set_once) toy_calls \<noteq> Inr (Clone toy_set_once) \<and>
   tree_at 9 (toy_sets_on (snd toy_cloned)) (snd toy_store) = Some toy_set_once \<and>
   Sets_st toy 9 (fst toy_cloned) (snd toy_store) toy_calls =
     Returns (toy_sets_on (snd toy_store)) \<and>
   map_option Inr (tree_at 9 (toy_sets_on (snd toy_store)) (snd toy_store)) =
     Some (Sets toy toy_set_once toy_calls) \<and>
   Sets toy toy_set_once toy_calls \<noteq> Inr toy_set_once \<and>
   tree_at 9 (toy_sets_on (snd toy_store)) (snd toy_cloned) = Some (Clone toy_set_once)"
  using Clone_isolation [OF toy_stores(1,2), of 9 toy 9 toy_calls "toy_sets_on (snd toy_cloned)"]
        Clone_isolation [OF toy_stores(1,2), of 9 toy 9 toy_calls "toy_sets_on (snd toy_store)"]
        toy_stores
  by simp

end
